theory Spec2Isabelle
  imports Main "HOL-Library.Word"
begin

unbundle bit_operations_syntax

section \<open>The LZW codec and the Base64 decoder of tvgCompressor.cpp\<close>

text \<open>
  Conventions of the embedding.
  \<^item> A C++ \<open>int\<close> is a HOL \<open>int\<close>. Signed overflow is undefined in C++: where the
    arithmetic of the writer can leave the range of \<open>int\<close> the model checks the range and
    gives the error \<open>Overflow\<close>. The conversions between \<open>uint32_t\<close> and \<open>int\<close>, which are
    defined, are written out with \<open>sint\<close> and \<open>word_of_int\<close>.
  \<^item> \<open>uint8_t\<close>, \<open>uint32_t\<close>, \<open>uint64_t\<close> are \<open>8 word\<close>, \<open>32 word\<close>, \<open>64 word\<close>.
  \<^item> A buffer is a list of bytes; an access outside it is the error \<open>OutOfBounds\<close>.
  \<^item> The entry array of the dictionary is a map from indices to entries; an index that
    was never written maps to \<open>None\<close>, and reading it is the error \<open>Uninitialised\<close>.
  \<^item> Results are \<open>error + 'a\<close>, with \<open>Inl\<close> for the error.
\<close>

type_synonym byte = "8 word"

datatype error = OutOfBounds | Uninitialised | ScratchOverrun | Overflow

text \<open>The values of a 32-bit \<open>int\<close>.\<close>

definition int_range :: "int \<Rightarrow> bool" where
  "int_range x \<longleftrightarrow> - 2147483648 \<le> x \<and> x \<le> 2147483647"

subsection \<open>Constants\<close>

definition Nil_code :: int where
  "Nil_code = -1"

definition MaxDictBits :: int where
  "MaxDictBits = 12"

definition StartBits :: int where
  "StartBits = 9"

definition FirstCode :: int where
  "FirstCode = push_bit (nat (StartBits - 1)) 1"

definition MaxDictEntries :: int where
  "MaxDictEntries = push_bit (nat MaxDictBits) 1"

subsection \<open>Dictionary\<close>

record Entry =
  entry_code :: int
  entry_value :: int

record Dictionary =
  dsize :: int
  entries :: "int \<Rightarrow> Entry option"

text \<open>The constructor: entries 0 to 255 are the byte range, the others are not written.\<close>

definition Dictionary_init :: Dictionary where
  "Dictionary_init =
     \<lparr>dsize = FirstCode,
      entries = (\<lambda>i. if 0 \<le> i \<and> i < FirstCode
                      then Some \<lparr>entry_code = Nil_code, entry_value = i\<rparr> else None)\<rparr>"

definition add :: "int \<Rightarrow> int \<Rightarrow> Dictionary \<Rightarrow> bool \<times> Dictionary" where
  "add code val d =
     (if dsize d = MaxDictEntries then (False, d)
      else (True, d\<lparr>entries := (entries d)(dsize d \<mapsto> \<lparr>entry_code = code, entry_value = val\<rparr>),
                     dsize := dsize d + 1\<rparr>))"

text \<open>\<open>flush\<close> returns its result, the dictionary and the updated \<open>codeBitsWidth\<close>.\<close>

definition flush :: "int \<Rightarrow> Dictionary \<Rightarrow> bool \<times> Dictionary \<times> int" where
  "flush codeBitsWidth d =
     (if dsize d = push_bit (nat codeBitsWidth) 1 then
        (let w = codeBitsWidth + 1 in
         if w > MaxDictBits then (True, d\<lparr>dsize := FirstCode\<rparr>, StartBits)
         else (False, d, w))
      else (False, d, codeBitsWidth))"

subsection \<open>BitStreamWriter\<close>

text \<open>The decrement, the five passes of the loop (\<open>i\<close> is 1, 2, 4, 8, 16) and the increment.\<close>

definition nextPowerOfTwo :: "int \<Rightarrow> error + int" where
  "nextPowerOfTwo num =
     (if \<not> int_range (num - 1) then Inl Overflow
      else
        let n = fold (\<lambda>i n. n OR drop_bit i n) [1, 2, 4, 8, 16] (num - 1)
        in if \<not> int_range (n + 1) then Inl Overflow else Inr (n + 1))"

text \<open>\<open>stream\<close> is the heap buffer the writer owns; the null pointer is the empty list.\<close>

record BitStreamWriter =
  stream :: "byte list"
  bytesAllocated :: int
  granularity :: int
  currBytePos :: int
  nextBitPos :: int
  numBitsWritten :: int

definition internalInit :: BitStreamWriter where
  "internalInit =
     \<lparr>stream = [], bytesAllocated = 0, granularity = 2, currBytePos = 0, nextBitPos = 0,
      numBitsWritten = 0\<rparr>"

text \<open>Fresh zeroed memory, with the first \<open>oldSize\<close> bytes copied from the old buffer.\<close>

definition allocBytes :: "int \<Rightarrow> byte list \<Rightarrow> int \<Rightarrow> byte list" where
  "allocBytes bytesWanted oldPtr oldSize =
     take (nat oldSize) oldPtr @ drop (nat oldSize) (replicate (nat bytesWanted) 0)"

definition allocate :: "int \<Rightarrow> BitStreamWriter \<Rightarrow> error + BitStreamWriter" where
  "allocate bitsWanted0 w =
     (let bitsWanted1 = (if bitsWanted0 \<le> 0 then 8 else bitsWanted0)
      in case (if bitsWanted1 mod 8 \<noteq> 0 then nextPowerOfTwo bitsWanted1 else Inr bitsWanted1) of
           Inl e \<Rightarrow> Inl e
         | Inr bitsWanted \<Rightarrow>
             (let sizeInBytes = bitsWanted div 8
              in if sizeInBytes \<le> bytesAllocated w then Inr w
                 else Inr (w\<lparr>stream := allocBytes sizeInBytes (stream w) (bytesAllocated w),
                           bytesAllocated := sizeInBytes\<rparr>)))"

definition setGranularity :: "int \<Rightarrow> BitStreamWriter \<Rightarrow> BitStreamWriter" where
  "setGranularity growthGranularity w =
     w\<lparr>granularity := (if growthGranularity \<ge> 2 then growthGranularity else 2)\<rparr>"

text \<open>The two constructors.\<close>

definition BitStreamWriter_default :: "error + BitStreamWriter" where
  "BitStreamWriter_default = allocate 8192 internalInit"

definition BitStreamWriter_sized :: "int \<Rightarrow> int \<Rightarrow> error + BitStreamWriter" where
  "BitStreamWriter_sized initialSizeInBits growthGranularity =
     allocate initialSizeInBits (setGranularity growthGranularity internalInit)"

text \<open>
  \<open>appendBit\<close> writes the bit, counts it and moves on; at the end of the buffer it asks for
  \<open>bytesAllocated * granularity * 8\<close> bits, a product of \<open>int\<close>s.
\<close>

definition appendBit :: "int \<Rightarrow> BitStreamWriter \<Rightarrow> error + BitStreamWriter" where
  "appendBit b w =
     (if currBytePos w < 0 \<or> int (length (stream w)) \<le> currBytePos w then Inl OutOfBounds
      else if \<not> int_range (numBitsWritten w + 1) \<or> \<not> int_range (nextBitPos w + 1) then Inl Overflow
      else
        let mask = (push_bit (nat (nextBitPos w)) 1 :: 32 word);
            old = stream w ! nat (currBytePos w);
            new = (ucast ((ucast old AND NOT mask) OR (word_of_int (- b) AND mask)) :: byte);
            w1 = w\<lparr>stream := (stream w)[nat (currBytePos w) := new],
                   numBitsWritten := numBitsWritten w + 1\<rparr>
        in if nextBitPos w + 1 = 8 then
             (if \<not> int_range (currBytePos w + 1) then Inl Overflow
              else
                let w2 = w1\<lparr>nextBitPos := 0, currBytePos := currBytePos w + 1\<rparr>
                in if currBytePos w2 = bytesAllocated w2 then
                     (if \<not> int_range (bytesAllocated w2 * granularity w2)
                         \<or> \<not> int_range (bytesAllocated w2 * granularity w2 * 8)
                      then Inl Overflow
                      else allocate (bytesAllocated w2 * granularity w2 * 8) w2)
                   else Inr w2)
           else Inr (w1\<lparr>nextBitPos := nextBitPos w + 1\<rparr>))"

function appendBitsU64_loop :: "64 word \<Rightarrow> int \<Rightarrow> int \<Rightarrow> BitStreamWriter \<Rightarrow> error + BitStreamWriter" where
  "appendBitsU64_loop num bitCount b w =
     (if b < bitCount then
        (let mask = (push_bit (nat b) 1 :: 64 word);
             bit1 = (if num AND mask \<noteq> 0 then 1 else 0)
         in case appendBit bit1 w of
              Inl e \<Rightarrow> Inl e
            | Inr w' \<Rightarrow> appendBitsU64_loop num bitCount (b + 1) w')
      else Inr w)"
  by pat_completeness auto
termination
  by (relation "measure (\<lambda>(num, bitCount, b, w). nat (bitCount - b))") auto

definition appendBitsU64 :: "64 word \<Rightarrow> int \<Rightarrow> BitStreamWriter \<Rightarrow> error + BitStreamWriter" where
  "appendBitsU64 num bitCount w = appendBitsU64_loop num bitCount 0 w"

text \<open>\<open>release\<close> hands the buffer out and leaves the writer as \<open>internalInit\<close> does.\<close>

definition release :: "BitStreamWriter \<Rightarrow> byte list \<times> BitStreamWriter" where
  "release w = (stream w, internalInit)"

definition getByteCount :: "BitStreamWriter \<Rightarrow> int" where
  "getByteCount w =
     (let usedBytes = numBitsWritten w div 8; leftovers = numBitsWritten w mod 8
      in if leftovers \<noteq> 0 then usedBytes + 1 else usedBytes)"

subsection \<open>BitStreamReader\<close>

text \<open>\<open>rstream\<close> is the borrowed buffer, as long as the memory behind the pointer.\<close>

record BitStreamReader =
  rstream :: "byte list"
  sizeInBytes :: int
  sizeInBits :: int
  rcurrBytePos :: int
  rnextBitPos :: int
  numBitsRead :: int

definition BitStreamReader_init :: "byte list \<Rightarrow> int \<Rightarrow> int \<Rightarrow> BitStreamReader" where
  "BitStreamReader_init bitStream byteCount bitCount =
     \<lparr>rstream = bitStream, sizeInBytes = byteCount, sizeInBits = bitCount,
      rcurrBytePos = 0, rnextBitPos = 0, numBitsRead = 0\<rparr>"

text \<open>The result is \<open>None\<close> when the source returns false and leaves \<open>bitOut\<close> alone.\<close>

definition readNextBit :: "BitStreamReader \<Rightarrow> error + (int option \<times> BitStreamReader)" where
  "readNextBit r =
     (if numBitsRead r \<ge> sizeInBits r then Inr (None, r)
      else if rcurrBytePos r < 0 \<or> int (length (rstream r)) \<le> rcurrBytePos r then Inl OutOfBounds
      else
        let mask = (push_bit (nat (rnextBitPos r)) 1 :: 32 word);
            bitOut = (if ucast (rstream r ! nat (rcurrBytePos r)) AND mask \<noteq> 0 then 1 else 0);
            r1 = r\<lparr>numBitsRead := numBitsRead r + 1\<rparr>
        in if rnextBitPos r + 1 = 8
           then Inr (Some bitOut, r1\<lparr>rnextBitPos := 0, rcurrBytePos := rcurrBytePos r + 1\<rparr>)
           else Inr (Some bitOut, r1\<lparr>rnextBitPos := rnextBitPos r + 1\<rparr>))"

function readBitsU64_loop ::
  "int \<Rightarrow> int \<Rightarrow> 64 word \<Rightarrow> BitStreamReader \<Rightarrow> error + (64 word \<times> BitStreamReader)" where
  "readBitsU64_loop bitCount b num r =
     (if b < bitCount then
        (case readNextBit r of
           Inl e \<Rightarrow> Inl e
         | Inr (None, r') \<Rightarrow> Inr (num, r')
         | Inr (Some bit1, r') \<Rightarrow>
             (let mask = (push_bit (nat b) 1 :: 64 word)
              in readBitsU64_loop bitCount (b + 1)
                   ((num AND NOT mask) OR (word_of_int (- bit1) AND mask)) r'))
      else Inr (num, r))"
  by pat_completeness auto
termination
  by (relation "measure (\<lambda>(bitCount, b, num, r). nat (bitCount - b))") auto

definition readBitsU64 :: "BitStreamReader \<Rightarrow> int \<Rightarrow> error + (64 word \<times> BitStreamReader)" where
  "readBitsU64 r bitCount = readBitsU64_loop bitCount 0 0 r"

definition isEndOfStream :: "BitStreamReader \<Rightarrow> bool" where
  "isEndOfStream r = (numBitsRead r \<ge> sizeInBits r)"

subsection \<open>Sequences of writes and reads\<close>

text \<open>
  \<open>write_all\<close> performs a list of \<open>appendBitsU64\<close> calls (value and width), \<open>read_all\<close> a list
  of \<open>readBitsU64\<close> calls. \<open>all_bits\<close> is the bit sequence such writes stand for, least
  significant bit of each value first; \<open>stream_bit s i\<close> is bit \<open>i mod 8\<close> of byte \<open>i div 8\<close>.
\<close>

fun write_all :: "(64 word \<times> int) list \<Rightarrow> BitStreamWriter \<Rightarrow> error + BitStreamWriter" where
  "write_all [] w = Inr w"
| "write_all ((v, n) # ws) w =
     (case appendBitsU64 v n w of Inl e \<Rightarrow> Inl e | Inr w' \<Rightarrow> write_all ws w')"

fun read_all :: "int list \<Rightarrow> BitStreamReader \<Rightarrow> error + (64 word list \<times> BitStreamReader)" where
  "read_all [] r = Inr ([], r)"
| "read_all (n # ns) r =
     (case readBitsU64 r n of
        Inl e \<Rightarrow> Inl e
      | Inr (v, r') \<Rightarrow>
          (case read_all ns r' of Inl e \<Rightarrow> Inl e | Inr (vs, r'') \<Rightarrow> Inr (v # vs, r'')))"

definition all_bits :: "(64 word \<times> int) list \<Rightarrow> bool list" where
  "all_bits ws = concat (map (\<lambda>(v, n). map (bit v) [0 ..< nat n]) ws)"

definition stream_bit :: "byte list \<Rightarrow> nat \<Rightarrow> bool" where
  "stream_bit s i = bit (s ! (i div 8)) (i mod 8)"

text \<open>The value whose bit \<open>j\<close> is the \<open>j\<close>-th element of a list of bits.\<close>

definition word_of_bits :: "bool list \<Rightarrow> 64 word" where
  "word_of_bits bs = horner_sum of_bool 2 bs"

text \<open>A sequence of calls on a reader, the values read being dropped.\<close>

datatype read_op = ReadNextBit | ReadBitsU64 int

fun run_reads :: "read_op list \<Rightarrow> BitStreamReader \<Rightarrow> error + BitStreamReader" where
  "run_reads [] r = Inr r"
| "run_reads (ReadNextBit # ops) r =
     (case readNextBit r of Inl e \<Rightarrow> Inl e | Inr (b, r') \<Rightarrow> run_reads ops r')"
| "run_reads (ReadBitsU64 n # ops) r =
     (case readBitsU64 r n of Inl e \<Rightarrow> Inl e | Inr (v, r') \<Rightarrow> run_reads ops r')"

subsection \<open>Dictionary lookup\<close>

function findIndex_loop :: "Dictionary \<Rightarrow> int \<Rightarrow> int \<Rightarrow> int \<Rightarrow> error + int" where
  "findIndex_loop d code val i =
     (if i < dsize d then
        (case entries d i of
           None \<Rightarrow> Inl Uninitialised
         | Some e \<Rightarrow>
             if entry_code e = code \<and> entry_value e = val then Inr i
             else findIndex_loop d code val (i + 1))
      else Inr Nil_code)"
  by pat_completeness auto
termination
  by (relation "measure (\<lambda>(d, code, val, i). nat (dsize d - i))") auto

definition findIndex :: "int \<Rightarrow> int \<Rightarrow> Dictionary \<Rightarrow> error + int" where
  "findIndex code val d = (if code = Nil_code then Inr val else findIndex_loop d code val 0)"

subsection \<open>Decoder\<close>

text \<open>
  The output of the decoder is the pair of the bytes written through the output pointer so far
  and the counter \<open>bytesDecodedSoFar\<close>.
\<close>

type_synonym out_state = "byte list \<times> int"

definition outputByte :: "int \<Rightarrow> int \<Rightarrow> out_state \<Rightarrow> bool \<times> out_state" where
  "outputByte code outputSizeBytes st =
     (if snd st \<ge> outputSizeBytes then (False, st)
      else (True, (fst st @ [word_of_int code], snd st + 1)))"

text \<open>
  The do-while loop of \<open>outputSequence\<close>: \<open>sequence\<close> holds the cells 0 to \<open>i - 1\<close> of the
  scratch array, which has \<open>MaxDictEntries\<close> cells.
\<close>

function walk :: "Dictionary \<Rightarrow> int \<Rightarrow> byte list \<Rightarrow> error + byte list" where
  "walk d code sequence =
     (if int (length sequence) \<ge> MaxDictEntries then Inl ScratchOverrun
      else
        (case entries d code of
           None \<Rightarrow> Inl Uninitialised
         | Some e \<Rightarrow>
             (let sequence' = sequence @ [word_of_int (entry_value e)]
              in if entry_code e \<ge> 0 then walk d (entry_code e) sequence'
                 else Inr sequence')))"
  by pat_completeness auto
termination
  by (relation "measure (\<lambda>(d, code, sequence). nat MaxDictEntries - length sequence)")
     (auto simp: MaxDictEntries_def MaxDictBits_def)

text \<open>The for loop of \<open>outputSequence\<close>, over the scratch cells from the last one down.\<close>

fun output_cells :: "byte list \<Rightarrow> int \<Rightarrow> out_state \<Rightarrow> bool \<times> out_state" where
  "output_cells [] outputSizeBytes st = (True, st)"
| "output_cells (b # bs) outputSizeBytes st =
     (case outputByte (uint b) outputSizeBytes st of
        (False, st') \<Rightarrow> (False, st')
      | (True, st') \<Rightarrow> output_cells bs outputSizeBytes st')"

text \<open>\<open>outputSequence\<close> returns its result, the output and the updated \<open>firstByte\<close>.\<close>

definition outputSequence ::
  "Dictionary \<Rightarrow> int \<Rightarrow> int \<Rightarrow> out_state \<Rightarrow> error + (bool \<times> out_state \<times> int)" where
  "outputSequence dict code outputSizeBytes st =
     (case walk dict code [] of
        Inl e \<Rightarrow> Inl e
      | Inr sequence \<Rightarrow>
          (case output_cells (rev sequence) outputSizeBytes st of
             (ok, st') \<Rightarrow> Inr (ok, st', uint (last sequence))))"

text \<open>
  The branches \<open>if (code >= dictionary.size) ... else if ...\<close> of the decoding loop: the
  output of the sequence of \<open>prevCode\<close> followed by its first byte, or of the sequence of
  \<open>code\<close>. The boolean is false where the source leaves the loop.
\<close>

definition dec_sequence ::
  "Dictionary \<Rightarrow> int \<Rightarrow> int \<Rightarrow> int \<Rightarrow> out_state \<Rightarrow> error + (bool \<times> out_state \<times> int)" where
  "dec_sequence dict prevCode code outputSizeBytes st =
     (if code \<ge> dsize dict then
        (case outputSequence dict prevCode outputSizeBytes st of
           Inl e \<Rightarrow> Inl e
         | Inr (False, st', fb) \<Rightarrow> Inr (False, st', fb)
         | Inr (True, st', fb) \<Rightarrow>
             (case outputByte fb outputSizeBytes st' of (ok, st'') \<Rightarrow> Inr (ok, st'', fb)))
      else outputSequence dict code outputSizeBytes st)"

record DecState =
  dec_prevCode :: int
  dec_firstByte :: int
  dec_output :: out_state
  dec_codeBitsWidth :: int
  dec_dictionary :: Dictionary
  dec_bitStream :: BitStreamReader

text \<open>
  One pass through the body of the decoding loop. The boolean tells whether the loop
  goes on (\<open>False\<close> is a \<open>break\<close>).
\<close>

definition dec_step :: "int \<Rightarrow> DecState \<Rightarrow> error + (bool \<times> DecState)" where
  "dec_step outputSizeBytes s =
     (case readBitsU64 (dec_bitStream s) (dec_codeBitsWidth s) of
        Inl e \<Rightarrow> Inl e
      | Inr (v, bs') \<Rightarrow>
          (let code = sint (ucast v :: 32 word); s1 = s\<lparr>dec_bitStream := bs'\<rparr>
           in if dec_prevCode s = Nil_code then
                (case outputByte code outputSizeBytes (dec_output s) of
                   (False, st) \<Rightarrow> Inr (False, s1)
                 | (True, st) \<Rightarrow>
                     Inr (True, s1\<lparr>dec_output := st, dec_firstByte := code, dec_prevCode := code\<rparr>))
              else
                (case dec_sequence (dec_dictionary s) (dec_prevCode s) code outputSizeBytes
                        (dec_output s) of
                   Inl e \<Rightarrow> Inl e
                 | Inr (False, st, fb) \<Rightarrow> Inr (False, s1\<lparr>dec_output := st, dec_firstByte := fb\<rparr>)
                 | Inr (True, st, fb) \<Rightarrow>
                     (case flush (dec_codeBitsWidth s) (snd (add (dec_prevCode s) fb (dec_dictionary s))) of
                        (reset, d, w) \<Rightarrow>
                          Inr (True, s1\<lparr>dec_output := st, dec_firstByte := fb, dec_dictionary := d,
                                         dec_codeBitsWidth := w,
                                         dec_prevCode := (if reset then Nil_code else code)\<rparr>)))))"

text \<open>The loop \<open>while (!bitStream.isEndOfStream())\<close>; \<open>None\<close> stands for a loop that never ends.\<close>

partial_function (option) dec_loop :: "int \<Rightarrow> DecState \<Rightarrow> (error + DecState) option" where
  "dec_loop outputSizeBytes s =
     (if isEndOfStream (dec_bitStream s) then Some (Inr s)
      else
        (case dec_step outputSizeBytes s of
           Inl e \<Rightarrow> Some (Inl e)
         | Inr (continue, s') \<Rightarrow>
             if continue then dec_loop outputSizeBytes s' else Some (Inr s')))"

declare dec_loop.simps [code]

definition dec_init :: "byte list \<Rightarrow> 32 word \<Rightarrow> 32 word \<Rightarrow> DecState" where
  "dec_init compressed compressedSizeBytes compressedSizeBits =
     \<lparr>dec_prevCode = Nil_code, dec_firstByte = 0, dec_output = ([], 0),
      dec_codeBitsWidth = StartBits, dec_dictionary = Dictionary_init,
      dec_bitStream = BitStreamReader_init compressed (sint compressedSizeBytes) (sint compressedSizeBits)\<rparr>"

text \<open>
  \<open>lzwDecode\<close> returns the buffer of \<open>uncompressedSizeBytes\<close> bytes it allocated: the bytes
  written, followed by cells that were never written (\<open>None\<close>). The count of decoded bytes
  is not returned.
\<close>

definition lzwDecode ::
  "byte list \<Rightarrow> 32 word \<Rightarrow> 32 word \<Rightarrow> 32 word \<Rightarrow> (error + byte option list) option" where
  "lzwDecode compressed compressedSizeBytes compressedSizeBits uncompressedSizeBytes =
     (case dec_loop (sint uncompressedSizeBytes)
             (dec_init compressed compressedSizeBytes compressedSizeBits) of
        None \<Rightarrow> None
      | Some (Inl e) \<Rightarrow> Some (Inl e)
      | Some (Inr s) \<Rightarrow>
          Some (Inr (map Some (fst (dec_output s))
                     @ replicate (unat uncompressedSizeBytes - length (fst (dec_output s))) None)))"

subsection \<open>Encoder\<close>

record EncState =
  enc_code :: int
  enc_codeBitsWidth :: int
  enc_dictionary :: Dictionary
  enc_bitStream :: BitStreamWriter

text \<open>One pass through the body of the for loop of \<open>lzwEncode\<close>, for the input byte \<open>x\<close>.\<close>

definition enc_step :: "byte \<Rightarrow> EncState \<Rightarrow> error + EncState" where
  "enc_step x s =
     (let val = uint x in
      case findIndex (enc_code s) val (enc_dictionary s) of
        Inl e \<Rightarrow> Inl e
      | Inr index \<Rightarrow>
          if index \<noteq> Nil_code then Inr (s\<lparr>enc_code := index\<rparr>)
          else
            (case appendBitsU64 (word_of_int (enc_code s)) (enc_codeBitsWidth s) (enc_bitStream s) of
               Inl e \<Rightarrow> Inl e
             | Inr bs' \<Rightarrow>
                 (case flush (enc_codeBitsWidth s) (enc_dictionary s) of
                    (reset, d, w) \<Rightarrow>
                      Inr (s\<lparr>enc_bitStream := bs',
                             enc_dictionary := (if \<not> reset then snd (add (enc_code s) val d) else d),
                             enc_codeBitsWidth := w, enc_code := val\<rparr>))))"

fun enc_loop :: "byte list \<Rightarrow> EncState \<Rightarrow> error + EncState" where
  "enc_loop [] s = Inr s"
| "enc_loop (x # xs) s = (case enc_step x s of Inl e \<Rightarrow> Inl e | Inr s' \<Rightarrow> enc_loop xs s')"

text \<open>The state before the loop, with the writer the constructor has built.\<close>

definition enc_init :: "BitStreamWriter \<Rightarrow> EncState" where
  "enc_init bitStream =
     \<lparr>enc_code = Nil_code, enc_codeBitsWidth = StartBits, enc_dictionary = Dictionary_init,
      enc_bitStream = bitStream\<rparr>"

text \<open>The residual code at the end, and the whole run of the encoder on an input.\<close>

definition enc_residual :: "EncState \<Rightarrow> error + BitStreamWriter" where
  "enc_residual s =
     (if enc_code s \<noteq> Nil_code
      then appendBitsU64 (word_of_int (enc_code s)) (enc_codeBitsWidth s) (enc_bitStream s)
      else Inr (enc_bitStream s))"

definition enc_run :: "byte list \<Rightarrow> EncState \<Rightarrow> error + BitStreamWriter" where
  "enc_run xs s = (case enc_loop xs s of Inl e \<Rightarrow> Inl e | Inr s' \<Rightarrow> enc_residual s')"

text \<open>
  \<open>lzwEncode\<close> returns the buffer, \<open>*compressedSizeBytes\<close> and \<open>*compressedSizeBits\<close>. Its input
  is the list of the \<open>uncompressedSizeBytes\<close> bytes behind \<open>uncompressed\<close>; the size is a
  \<open>uint32_t\<close>, so a list of \<open>2 ^ 32\<close> bytes or more is no input of a call.
\<close>

definition lzwEncode :: "byte list \<Rightarrow> error + (byte list \<times> 32 word \<times> 32 word)" where
  "lzwEncode uncompressed =
     (if \<not> int (length uncompressed) < 4294967296 then Inl OutOfBounds
      else
        case BitStreamWriter_default of
          Inl e \<Rightarrow> Inl e
        | Inr bitStream \<Rightarrow>
            (case enc_run uncompressed (enc_init bitStream) of
               Inl e \<Rightarrow> Inl e
             | Inr bs \<Rightarrow>
                 Inr (fst (release bs), word_of_int (getByteCount bs), word_of_int (numBitsWritten bs))))"

subsection \<open>What a code stands for\<close>

text \<open>
  \<open>chain d c bs\<close>: following the parent codes from entry \<open>c\<close> of \<open>d\<close>, each parent smaller
  than its child, ends in an entry without parent, and \<open>bs\<close> is the list of the values met,
  in forward order (the value of \<open>c\<close> last).
\<close>

inductive chain :: "Dictionary \<Rightarrow> int \<Rightarrow> byte list \<Rightarrow> bool" for d where
  root: "entries d c = Some e \<Longrightarrow> entry_code e < 0 \<Longrightarrow> chain d c [word_of_int (entry_value e)]"
| link: "entries d c = Some e \<Longrightarrow> 0 \<le> entry_code e \<Longrightarrow> entry_code e < c \<Longrightarrow>
         chain d (entry_code e) bs \<Longrightarrow> chain d c (bs @ [word_of_int (entry_value e)])"

subsection \<open>Trajectories\<close>

text \<open>
  The states at the end of each pass of the decoding loop, in order. The pair observed at
  such a code boundary is the dictionary size and the code width.
\<close>

partial_function (option) dec_trace :: "int \<Rightarrow> DecState \<Rightarrow> (error + DecState list) option" where
  "dec_trace outputSizeBytes s =
     (if isEndOfStream (dec_bitStream s) then Some (Inr [])
      else
        (case dec_step outputSizeBytes s of
           Inl e \<Rightarrow> Some (Inl e)
         | Inr (continue, s') \<Rightarrow>
             if continue
             then Option.bind (dec_trace outputSizeBytes s')
                    (\<lambda>r. Some (case r of Inl e \<Rightarrow> Inl e | Inr tr \<Rightarrow> Inr (s' # tr)))
             else Some (Inr [s'])))"

declare dec_trace.simps [code]

definition dec_point :: "DecState \<Rightarrow> int \<times> int" where
  "dec_point s = (dsize (dec_dictionary s), dec_codeBitsWidth s)"

text \<open>
  The encoder emits a code in the passes where \<open>findIndex\<close> finds nothing; the pair observed
  at such an emission point is the dictionary size and the code width that \<open>flush\<close> leaves.
\<close>

definition enc_point :: "EncState \<Rightarrow> int \<times> int" where
  "enc_point s = (case flush (enc_codeBitsWidth s) (enc_dictionary s) of (reset, d, w) \<Rightarrow> (dsize d, w))"

fun enc_trajectory :: "byte list \<Rightarrow> EncState \<Rightarrow> (int \<times> int) list" where
  "enc_trajectory [] s = []"
| "enc_trajectory (x # xs) s =
     (case enc_step x s of
        Inl e \<Rightarrow> []
      | Inr s' \<Rightarrow>
          (if findIndex (enc_code s) (uint x) (enc_dictionary s) = Inr Nil_code then [enc_point s] else [])
          @ enc_trajectory xs s')"

subsection \<open>Invariant of the dictionary\<close>

text \<open>
  The size stays between 256 and 4096, the first 256 entries are the byte range, and every
  later entry below the size has a parent code smaller than its own index and a byte value.
\<close>

definition dict_wf :: "Dictionary \<Rightarrow> bool" where
  "dict_wf d \<longleftrightarrow>
     256 \<le> dsize d \<and> dsize d \<le> 4096
     \<and> (\<forall>i. 0 \<le> i \<and> i < 256 \<longrightarrow> entries d i = Some \<lparr>entry_code = - 1, entry_value = i\<rparr>)
     \<and> (\<forall>i. 256 \<le> i \<and> i < dsize d \<longrightarrow>
            (\<exists>e. entries d i = Some e \<and> 0 \<le> entry_code e \<and> entry_code e < i
                 \<and> 0 \<le> entry_value e \<and> entry_value e < 256))"

text \<open>The bits of a code as \<open>appendBitsU64\<close> writes them: \<open>w\<close> bits, least significant first.\<close>

definition code_bits :: "int \<Rightarrow> int \<Rightarrow> bool list" where
  "code_bits c w = map (bit (word_of_int c :: 64 word)) [0 ..< nat w]"

subsection \<open>Base64\<close>

text \<open>
  A \<open>char\<close> of the source is a signed byte (the test \<open>encoded[3] < 0\<close> of the source
  is written for one): \<open>schar\<close> is its value, between -128 and 127.
\<close>

definition schar :: "char \<Rightarrow> int" where
  "schar c = sint (of_char c :: 8 word)"

text \<open>The table, one list for each line of the source; the 133 cells after the
  initialisers are zero.\<close>

definition B64_INDEX :: "int list" where
  "B64_INDEX =
    [0,  0,  0,  0,  0,  0,  0,  0,  0,  0,  0,  0,  0,  0,  0,  0,  0,  0] @
    [0,  0,  0,  0,  0,  0,  0,  0,  0,  0,  0,  0,  0,  0,  0,  0,  0,  0] @
    [0,  0,  0,  0,  0,  0,  0,  62, 63, 62, 62, 63, 52, 53, 54, 55, 56, 57] @
    [58, 59, 60, 61, 0,  0,  0,  0,  0,  0,  0,  0,  1,  2,  3,  4,  5,  6] @
    [7,  8,  9,  10, 11, 12, 13, 14, 15, 16, 17, 18, 19, 20, 21, 22, 23, 24] @
    [25, 0,  0,  0,  0,  63, 0,  26, 27, 28, 29, 30, 31, 32, 33, 34, 35, 36] @
    [37, 38, 39, 40, 41, 42, 43, 44, 45, 46, 47, 48, 49, 50, 51] @
    replicate 133 0"

text \<open>\<open>B64_INDEX[(size_t)c]\<close>: a negative \<open>char\<close> converts to an index far outside the table.\<close>

definition b64_index :: "char \<Rightarrow> error + int" where
  "b64_index c = (if 0 \<le> schar c \<and> schar c < 256 then Inr (B64_INDEX ! nat (schar c))
                  else Inl OutOfBounds)"

text \<open>
  The string \<open>encoded\<close> is the list of its characters before the terminating NUL;
  \<open>char_at enc k\<close> is \<open>encoded[k]\<close>, the terminator included.
\<close>

definition char_at :: "string \<Rightarrow> nat \<Rightarrow> error + char" where
  "char_at enc k = (if k < length enc then Inr (enc ! k)
                    else if k = length enc then Inr (CHR 0x00)
                    else Inl OutOfBounds)"

text \<open>\<open>output[idx++] = v\<close> on a buffer of \<open>reserved\<close> bytes; \<open>out\<close> is what was written so far.\<close>

definition put_char :: "nat \<Rightarrow> int \<Rightarrow> string \<Rightarrow> error + string" where
  "put_char reserved v out = (if length out < reserved then Inr (out @ [char_of v])
                              else Inl OutOfBounds)"

function b64_loop :: "nat \<Rightarrow> string \<Rightarrow> string \<Rightarrow> error + string" where
  "b64_loop reserved enc out =
     (case char_at enc 0 of Inl e \<Rightarrow> Inl e | Inr c0 \<Rightarrow>
      if c0 = CHR 0x00 then Inr out else
      (case char_at enc 1 of Inl e \<Rightarrow> Inl e | Inr c1 \<Rightarrow>
       if c1 = CHR 0x00 then Inr out
       else if schar c0 \<le> 0x20 then b64_loop reserved (drop 1 enc) out
       else
        (case b64_index c0 of Inl e \<Rightarrow> Inl e | Inr value1 \<Rightarrow>
         case b64_index c1 of Inl e \<Rightarrow> Inl e | Inr value2 \<Rightarrow>
         case put_char reserved (push_bit 2 value1 + drop_bit 4 (value2 AND 0x30)) out of
           Inl e \<Rightarrow> Inl e | Inr out1 \<Rightarrow>
         case char_at enc 2 of Inl e \<Rightarrow> Inl e | Inr c2 \<Rightarrow>
         if c2 = CHR 0x00 then Inr out1 else
         (case char_at enc 3 of Inl e \<Rightarrow> Inl e | Inr c3 \<Rightarrow>
          if schar c3 < 0 \<or> c2 = CHR ''='' \<or> c2 = CHR ''.'' then Inr out1 else
          (case b64_index c2 of Inl e \<Rightarrow> Inl e | Inr value3 \<Rightarrow>
           case put_char reserved (push_bit 4 (value2 AND 0x0f) + drop_bit 2 (value3 AND 0x3c)) out1 of
             Inl e \<Rightarrow> Inl e | Inr out2 \<Rightarrow>
           if c3 = CHR 0x00 \<or> schar c3 < 0 \<or> c3 = CHR ''='' \<or> c3 = CHR ''.'' then Inr out2 else
           (case b64_index c3 of Inl e \<Rightarrow> Inl e | Inr value4 \<Rightarrow>
            case put_char reserved (push_bit 6 (value3 AND 0x03) + value4) out2 of
              Inl e \<Rightarrow> Inl e | Inr out3 \<Rightarrow>
            b64_loop reserved (drop 4 enc) out3))))))"
  by pat_completeness auto
termination
  by (relation "measure (\<lambda>(r, enc, out). length enc)")
     (auto simp: char_at_def split: if_splits)

text \<open>
  The result of \<open>b64Decode\<close>: the returned size and, when \<open>*decoded\<close> was assigned, the
  buffer it points to. A cell of the buffer that was never written is \<open>None\<close>.
\<close>

definition b64_buffer :: "nat \<Rightarrow> string \<Rightarrow> char option list" where
  "b64_buffer reserved out =
     map Some out @ drop (length out) (replicate (reserved - 1) None @ [Some (CHR 0x00)])"

definition b64_reserved :: "64 word \<Rightarrow> 64 word" where
  "b64_reserved len = 3 * (1 + drop_bit 2 len) + 1"

text \<open>
  \<open>encoded\<close> is \<open>None\<close> for a null pointer; \<open>decoded\<close> tells whether the out-pointer is
  non-null; \<open>malloc_ok\<close> tells whether the allocation of the source succeeds.
\<close>

definition b64Decode ::
  "string option \<Rightarrow> 64 word \<Rightarrow> bool \<Rightarrow> bool \<Rightarrow> error + (64 word \<times> char option list option)" where
  "b64Decode encoded len decoded malloc_ok =
     (case encoded of
        None \<Rightarrow> Inr (0, None)
      | Some enc \<Rightarrow>
          if \<not> decoded \<or> len = 0 then Inr (0, None)
          else
            let reserved = b64_reserved len in
            if \<not> malloc_ok then Inr (0, None)
            else (case b64_loop (unat reserved) enc [] of
                    Inl e \<Rightarrow> Inl e
                  | Inr out \<Rightarrow> Inr (reserved, Some (b64_buffer (unat reserved) out))))"


text \<open>The six-bit value of a character, and the three bytes of a group of four.\<close>

definition sextet :: "char \<Rightarrow> int" where
  "sextet c = B64_INDEX ! nat (schar c)"

definition byte1 :: "char \<Rightarrow> char \<Rightarrow> char" where
  "byte1 c0 c1 = char_of (4 * sextet c0 + sextet c1 div 16)"

definition byte2 :: "char \<Rightarrow> char \<Rightarrow> char" where
  "byte2 c1 c2 = char_of (16 * (sextet c1 mod 16) + sextet c2 div 4)"

definition byte3 :: "char \<Rightarrow> char \<Rightarrow> char" where
  "byte3 c2 c3 = char_of (64 * (sextet c2 mod 4) + sextet c3)"

subsection \<open>Invariants and relations of the proofs\<close>

text \<open>
  The writer has written exactly the bits \<open>bs\<close>: its positions and count say so, its
  buffer holds them packed from the least significant bit of each byte, and every other bit
  of the buffer is zero. The buffer is the one of the default constructor, doubled some
  number of times: a power of two of at most \<open>2 ^ 27\<close> bytes.
\<close>

definition writer_inv :: "BitStreamWriter \<Rightarrow> bool list \<Rightarrow> bool" where
  "writer_inv w bs \<longleftrightarrow>
     int (length (stream w)) = bytesAllocated w \<and> granularity w = 2
     \<and> (\<exists>j \<le> 27. length (stream w) = 2 ^ j)
     \<and> numBitsWritten w = int (length bs)
     \<and> currBytePos w = int (length bs div 8) \<and> nextBitPos w = int (length bs mod 8)
     \<and> length bs div 8 < length (stream w)
     \<and> (\<forall>i < 8 * length (stream w). stream_bit (stream w) i = (i < length bs \<and> bs ! i))"

text \<open>The writer that the default constructor builds.\<close>

definition writer0 :: BitStreamWriter where
  "writer0 = internalInit\<lparr>stream := replicate 1024 0, bytesAllocated := 1024\<rparr>"

text \<open>A reader over \<open>s\<close> that has consumed \<open>p\<close> bits.\<close>

definition reader_at :: "byte list \<Rightarrow> int \<Rightarrow> int \<Rightarrow> nat \<Rightarrow> BitStreamReader" where
  "reader_at s nb n p =
     \<lparr>rstream = s, sizeInBytes = nb, sizeInBits = n, rcurrBytePos = int (p div 8),
      rnextBitPos = int (p mod 8), numBitsRead = int p\<rparr>"

text \<open>
  The encoder between two input bytes: a well-formed dictionary that fits the code width, a
  writer that has written the bits \<open>bs\<close>, and a pending code that is in the dictionary.
\<close>

definition enc_inv :: "EncState \<Rightarrow> bool list \<Rightarrow> bool" where
  "enc_inv s bs \<longleftrightarrow>
     dict_wf (enc_dictionary s) \<and> writer_inv (enc_bitStream s) bs
     \<and> 9 \<le> enc_codeBitsWidth s \<and> enc_codeBitsWidth s \<le> 12
     \<and> dsize (enc_dictionary s) \<le> 2 ^ nat (enc_codeBitsWidth s)
     \<and> (enc_code s = Nil_code \<or> (0 \<le> enc_code s \<and> enc_code s < dsize (enc_dictionary s)))"

text \<open>The bytes the pending code of the encoder stands for.\<close>

definition pending :: "EncState \<Rightarrow> byte list \<Rightarrow> bool" where
  "pending s bs \<longleftrightarrow> (enc_code s = Nil_code \<and> bs = []) \<or> (0 \<le> enc_code s \<and> chain (enc_dictionary s) (enc_code s) bs)"

text \<open>What \<open>flush\<close> does to the width and whether it resets, given the size it sees.\<close>

definition next_width :: "int \<Rightarrow> int \<Rightarrow> int" where
  "next_width w n = (if n = 2 ^ nat w then (if w = 12 then 9 else w + 1) else w)"

definition resets :: "int \<Rightarrow> int \<Rightarrow> bool" where
  "resets w n \<longleftrightarrow> n = 2 ^ nat w \<and> w = 12"

text \<open>The dictionary of the encoder after an emission of the pending code \<open>c\<close> before the byte \<open>v\<close>.\<close>

definition enc_next_dict :: "int \<Rightarrow> int \<Rightarrow> int \<Rightarrow> Dictionary \<Rightarrow> Dictionary" where
  "enc_next_dict w c v d =
     (if resets w (dsize d) then d\<lparr>dsize := 256\<rparr>
      else d\<lparr>entries := (entries d)(dsize d \<mapsto> \<lparr>entry_code = c, entry_value = v\<rparr>),
             dsize := dsize d + 1\<rparr>)"

text \<open>
  The encoder after it has emitted a code and the decoder before it reads that code: they
  agree on the code width; either both start an epoch, or the decoder lacks exactly the
  entry the encoder added last, whose parent is the previous code of the decoder and whose
  value is the first byte of the pending code of the encoder.
\<close>

definition rel :: "EncState \<Rightarrow> DecState \<Rightarrow> bool" where
  "rel E D \<longleftrightarrow>
     dec_codeBitsWidth D = enc_codeBitsWidth E \<and> dict_wf (dec_dictionary D)
     \<and> (if dec_prevCode D = Nil_code
        then dsize (enc_dictionary E) = 256 \<and> dsize (dec_dictionary D) = 256 \<and> enc_code E < 256
        else 0 \<le> dec_prevCode D \<and> dec_prevCode D < dsize (dec_dictionary D)
             \<and> dsize (enc_dictionary E) = dsize (dec_dictionary D) + 1
             \<and> (\<forall>i. 0 \<le> i \<and> i < dsize (dec_dictionary D) \<longrightarrow>
                    entries (dec_dictionary D) i = entries (enc_dictionary E) i)
             \<and> 0 \<le> enc_code E
             \<and> (\<exists>bs. chain (enc_dictionary E) (enc_code E) bs
                   \<and> entries (enc_dictionary E) (dsize (dec_dictionary D)) =
                       Some \<lparr>entry_code = dec_prevCode D, entry_value = uint (hd bs)\<rparr>))"

text \<open>The states of the encoder after an emission, and the relation they are in.\<close>

definition enc_next :: "byte \<Rightarrow> BitStreamWriter \<Rightarrow> EncState \<Rightarrow> EncState" where
  "enc_next x wr E =
     E\<lparr>enc_bitStream := wr,
       enc_dictionary := enc_next_dict (enc_codeBitsWidth E) (enc_code E) (uint x) (enc_dictionary E),
       enc_codeBitsWidth := next_width (enc_codeBitsWidth E) (dsize (enc_dictionary E)),
       enc_code := uint x\<rparr>"

text \<open>The dictionary of the decoder after \<open>add\<close> and \<open>flush\<close>, when it has seen a code before.\<close>

definition dec_next_dict :: "int \<Rightarrow> int \<Rightarrow> int \<Rightarrow> Dictionary \<Rightarrow> Dictionary" where
  "dec_next_dict w prev v d =
     (if resets w (dsize d + 1)
      then d\<lparr>entries := (entries d)(dsize d \<mapsto> \<lparr>entry_code = prev, entry_value = v\<rparr>), dsize := 256\<rparr>
      else d\<lparr>entries := (entries d)(dsize d \<mapsto> \<lparr>entry_code = prev, entry_value = v\<rparr>),
             dsize := dsize d + 1\<rparr>)"

section \<open>Properties\<close>

lemma FirstCode_eq: "FirstCode = 256"
  by (simp add: FirstCode_def StartBits_def)

lemma MaxDictEntries_eq: "MaxDictEntries = 4096"
  by (simp add: MaxDictEntries_def MaxDictBits_def)

text \<open>
  C6. For a code width \<open>w\<close> in 9..12, \<open>flush\<close> increments the width exactly when the
  dictionary size is \<open>2 ^ w\<close> (512, 1024, 2048 for 9, 10, 11); when the incremented width
  would exceed 12 (size 4096 at width 12) it resets the size to 256 and the width to 9
  and returns true; in every other case size and width are unchanged and it returns
  false. The entries are never touched.
\<close>

theorem C6_flush_width_schedule:
  assumes "w \<in> {9, 10, 11, 12}"
  shows "flush w d =
           (if dsize d = 2 ^ nat w
            then (if w = 12 then (True, d\<lparr>dsize := 256\<rparr>, 9) else (False, d, w + 1))
            else (False, d, w))"
  using assms by (auto simp: flush_def Let_def MaxDictBits_def FirstCode_eq StartBits_def push_bit_eq_mult)

theorem C6_flush_width_schedule_witness:
  "flush 9 (Dictionary_init\<lparr>dsize := 512\<rparr>) = (False, Dictionary_init\<lparr>dsize := 512\<rparr>, 10)
   \<and> flush 10 (Dictionary_init\<lparr>dsize := 1024\<rparr>) = (False, Dictionary_init\<lparr>dsize := 1024\<rparr>, 11)
   \<and> flush 11 (Dictionary_init\<lparr>dsize := 2048\<rparr>) = (False, Dictionary_init\<lparr>dsize := 2048\<rparr>, 12)
   \<and> flush 12 (Dictionary_init\<lparr>dsize := 4096\<rparr>) = (True, Dictionary_init\<lparr>dsize := 256\<rparr>, 9)
   \<and> flush 9 (Dictionary_init\<lparr>dsize := 300\<rparr>) = (False, Dictionary_init\<lparr>dsize := 300\<rparr>, 9)"
  using C6_flush_width_schedule [of 9 "Dictionary_init\<lparr>dsize := 512\<rparr>"]
    C6_flush_width_schedule [of 10 "Dictionary_init\<lparr>dsize := 1024\<rparr>"]
    C6_flush_width_schedule [of 11 "Dictionary_init\<lparr>dsize := 2048\<rparr>"]
    C6_flush_width_schedule [of 12 "Dictionary_init\<lparr>dsize := 4096\<rparr>"]
    C6_flush_width_schedule [of 9 "Dictionary_init\<lparr>dsize := 300\<rparr>"]
  by simp

subsection \<open>Bit streams\<close>

declare appendBitsU64_loop.simps [simp del] readBitsU64_loop.simps [simp del]

lemma set_bit_byte:
  assumes "k < 8" "j < 8"
  shows "bit (ucast ((ucast (old :: byte) AND NOT (push_bit k (1 :: 32 word)))
                      OR (word_of_int (- (if c then 1 else 0)) AND push_bit k 1)) :: byte) j
         = (if j = k then c else bit old j)"
  using assms by (cases c) (auto simp: bit_simps)

lemma int_range_iff: "int_range x \<longleftrightarrow> - (2 ^ 31) \<le> x \<and> x < 2 ^ 31"
  by (auto simp: int_range_def)

text \<open>A request of a multiple of 8 bits does not go through \<open>nextPowerOfTwo\<close>.\<close>

lemma allocate_bytes:
  assumes "0 < n" "n mod 8 = 0"
  shows "allocate n w =
           Inr (if n div 8 \<le> bytesAllocated w then w
                else w\<lparr>stream := allocBytes (n div 8) (stream w) (bytesAllocated w),
                       bytesAllocated := n div 8\<rparr>)"
  using assms by (simp add: allocate_def Let_def)

lemma allocBytes_grows:
  assumes "int (length s) = b" "b \<le> m"
  shows "allocBytes m s b = s @ replicate (nat m - length s) 0"
  using assms by (auto simp: allocBytes_def)

lemma stream_bit_update:
  assumes "cur < length s"
  shows "stream_bit (s[cur := x]) i = (if i div 8 = cur then bit x (i mod 8) else stream_bit s i)"
  using assms by (simp add: stream_bit_def)

lemma stream_bit_append_zero:
  "stream_bit (s @ replicate m 0) i = (i < 8 * length s \<and> stream_bit s i)"
  if "i < 8 * (length s + m)"
proof -
  have "i div 8 < length s \<longleftrightarrow> i < 8 * length s" by auto
  moreover have "i div 8 - length s < m" if "\<not> i div 8 < length s"
    using that \<open>i < 8 * (length s + m)\<close> by auto
  ultimately show ?thesis by (auto simp: stream_bit_def nth_append)
qed

lemma div_mod_8_eq: "i div 8 = n div 8 \<and> i mod 8 = n mod 8 \<longleftrightarrow> i = (n::nat)"
  by (metis div_mult_mod_eq)

lemma writer_inv_room:
  assumes "writer_inv w bs"
  shows "length bs < 2 ^ 30"
proof -
  from assms obtain j where j: "j \<le> 27" "length (stream w) = 2 ^ j"
    and c: "length bs div 8 < length (stream w)" by (auto simp: writer_inv_def)
  have "(2 :: nat) ^ j \<le> 2 ^ 27" using j(1) by (intro power_increasing) simp_all
  then have "length bs div 8 < 2 ^ 27" using c j(2) by simp
  then show ?thesis by simp
qed

text \<open>
  Appending a bit keeps the invariant as long as fewer than \<open>2 ^ 30\<close> bits are written. The
  bit that fills the buffer of \<open>2 ^ 27\<close> bytes is the bit number \<open>2 ^ 30\<close>: there the request
  for twice the size does not fit an \<open>int\<close>.
\<close>

lemma appendBit_inv:
  assumes inv: "writer_inv w bs"
  shows "if Suc (length bs) < 2 ^ 30
         then \<exists>w'. appendBit (if c then 1 else 0) w = Inr w' \<and> writer_inv w' (bs @ [c])
         else appendBit (if c then 1 else 0) w = Inl Overflow"
proof -
  let ?n = "length bs" and ?s = "stream w"
  let ?cur = "?n div 8" and ?k = "?n mod 8"
  define new where "new = (ucast ((ucast (?s ! ?cur) AND NOT (push_bit ?k (1 :: 32 word)))
                      OR (word_of_int (- (if c then 1 else 0)) AND push_bit ?k 1)) :: byte)"
  let ?s' = "?s[?cur := new]"
  from inv have len: "int (length ?s) = bytesAllocated w" and gr: "granularity w = 2"
    and nb: "numBitsWritten w = int ?n" and cb: "currBytePos w = int ?cur"
    and np: "nextBitPos w = int ?k" and inr: "?cur < length ?s"
    and bits: "\<And>i. i < 8 * length ?s \<Longrightarrow> stream_bit ?s i = (i < ?n \<and> bs ! i)"
    by (auto simp: writer_inv_def)
  from inv obtain j where j: "j \<le> 27" "length ?s = 2 ^ j" by (auto simp: writer_inv_def)
  have n30: "?n < 2 ^ 30" using writer_inv_room [OF inv] .
  have k8: "?k < 8" by simp
  have r1: "int_range (numBitsWritten w + 1)" "int_range (nextBitPos w + 1)"
    "int_range (currBytePos w + 1)"
    using n30 k8 by (simp_all add: nb np cb int_range_def)
  have newbit: "bit new j = (if j = ?k then c else bit (?s ! ?cur) j)" if "j < 8" for j
    unfolding new_def using k8 that by (rule set_bit_byte)
  have upd: "stream_bit ?s' i = (if i div 8 = ?cur then bit new (i mod 8) else stream_bit ?s i)" for i
    using inr by (rule stream_bit_update)
  have bits': "stream_bit ?s' i = (i < Suc ?n \<and> (bs @ [c]) ! i)" if "i < 8 * length ?s" for i
  proof (cases "i = ?n")
    case True
    then show ?thesis by (simp add: upd newbit)
  next
    case False
    then have ne: "\<not> (i div 8 = ?cur \<and> i mod 8 = ?k)" using div_mod_8_eq by blast
    have "stream_bit ?s' i = stream_bit ?s i"
    proof (cases "i div 8 = ?cur")
      case True
      then have "i mod 8 \<noteq> ?k" using ne by simp
      then show ?thesis unfolding upd using True by (simp add: newbit stream_bit_def)
    next
      case False
      then show ?thesis by (simp add: upd)
    qed
    then show ?thesis using bits [OF that] False by (auto simp: nth_append)
  qed
  define w1 where "w1 = w\<lparr>stream := ?s', numBitsWritten := numBitsWritten w + 1\<rparr>"
  show ?thesis
  proof (cases "?k + 1 = 8")
    case False
    then have ap: "appendBit (if c then 1 else 0) w = Inr (w1\<lparr>nextBitPos := nextBitPos w + 1\<rparr>)"
      using inr cb np r1 by (simp add: appendBit_def Let_def w1_def new_def)
    have d: "Suc ?n div 8 = ?cur" "Suc ?n mod 8 = Suc ?k"
      using False by (simp_all add: div_Suc mod_Suc)
    have "Suc ?n \<noteq> 2 ^ 30"
    proof
      assume "Suc ?n = 2 ^ 30"
      then have "Suc ?n mod 8 = 0" by simp
      then show False using d(2) by simp
    qed
    then have room: "Suc ?n < 2 ^ 30" using n30 by simp
    have "writer_inv (w1\<lparr>nextBitPos := nextBitPos w + 1\<rparr>) (bs @ [c])"
      using len gr nb cb np inr bits' d j by (auto simp: writer_inv_def w1_def)
    then show ?thesis using ap room by auto
  next
    case True
    then have d: "Suc ?n div 8 = Suc ?cur" "Suc ?n mod 8 = 0"
      by (simp_all add: div_Suc mod_Suc)
    have n8: "Suc ?n = 8 * Suc ?cur" using d by (metis div_mult_mod_eq add.right_neutral mult.commute)
    define w2 where "w2 = w1\<lparr>nextBitPos := 0, currBytePos := currBytePos w + 1\<rparr>"
    have inv2: "int (length (stream w2)) = bytesAllocated w2" "granularity w2 = 2"
      "numBitsWritten w2 = int (Suc ?n)" "currBytePos w2 = int (Suc ?n div 8)"
      "nextBitPos w2 = int (Suc ?n mod 8)" "stream w2 = ?s'" "bytesAllocated w2 = bytesAllocated w"
      using len nb cb d gr by (simp_all add: w2_def w1_def)
    have ap0: "appendBit (if c then 1 else 0) w =
          (if currBytePos w2 = bytesAllocated w2 then
             (if \<not> int_range (bytesAllocated w2 * granularity w2)
                 \<or> \<not> int_range (bytesAllocated w2 * granularity w2 * 8)
              then Inl Overflow
              else allocate (bytesAllocated w2 * granularity w2 * 8) w2)
           else Inr w2)"
      using inr cb np True r1 by (simp add: appendBit_def Let_def w1_def w2_def new_def)
    show ?thesis
    proof (cases "currBytePos w2 = bytesAllocated w2")
      case False
      then have ap: "appendBit (if c then 1 else 0) w = Inr w2" using ap0 by simp
      have lt: "Suc ?cur < length ?s" using False inv2 inr len cb d by (simp add: w2_def w1_def)
      then have "Suc ?cur < 2 ^ 27"
      proof -
        have "(2 :: nat) ^ j \<le> 2 ^ 27" using j(1) by (intro power_increasing) simp_all
        then show ?thesis using lt j(2) by simp
      qed
      then have room: "Suc ?n < 2 ^ 30" using n8 by simp
      have "writer_inv w2 (bs @ [c])"
        using inv2 lt bits' d j by (auto simp: writer_inv_def)
      then show ?thesis using ap room by auto
    next
      case full: True
      have B: "bytesAllocated w2 = int (Suc ?cur)" using full inv2 d by simp
      then have lenB: "length ?s = Suc ?cur" using inv2 len by simp
      have req: "bytesAllocated w2 * granularity w2 * 8 = 2 * int (Suc ?n)"
        using B inv2(2) n8 by simp
      show ?thesis
      proof (cases "Suc ?n < 2 ^ 30")
        case room: True
        then have ir: "int_range (bytesAllocated w2 * granularity w2)"
          "int_range (bytesAllocated w2 * granularity w2 * 8)"
          using B inv2(2) n8 by (simp_all add: int_range_def)
        let ?w3 = "w2\<lparr>stream := allocBytes (2 * int (Suc ?cur)) (stream w2) (bytesAllocated w2),
                       bytesAllocated := 2 * int (Suc ?cur)\<rparr>"
        have "allocate (bytesAllocated w2 * granularity w2 * 8) w2 = Inr ?w3"
        proof -
          define rq where "rq = bytesAllocated w2 * granularity w2 * 8"
          have rq: "0 < rq" "rq mod 8 = 0" "rq div 8 = 2 * int (Suc ?cur)"
            using B inv2(2) by (simp_all add: rq_def)
          have "\<not> rq div 8 \<le> bytesAllocated w2" using rq(3) B by simp
          then have "allocate rq w2 = Inr ?w3"
            unfolding allocate_bytes [OF rq(1,2)] rq(3) by simp
          then show ?thesis by (simp only: rq_def)
        qed
        then have ap: "appendBit (if c then 1 else 0) w = Inr ?w3" using ap0 full ir by simp
        have st3: "stream ?w3 = ?s' @ replicate (Suc ?cur) 0"
        proof -
          have "int (length ?s') = bytesAllocated w2" "bytesAllocated w2 \<le> 2 * int (Suc ?cur)"
            using B lenB by simp_all
          from allocBytes_grows [OF this]
          have "allocBytes (2 * int (Suc ?cur)) ?s' (bytesAllocated w2) =
                ?s' @ replicate (nat (2 * int (Suc ?cur)) - length ?s') 0" .
          moreover have "nat (2 * int (Suc ?cur)) - length ?s' = Suc ?cur" using lenB by simp
          ultimately show ?thesis using inv2(6) by (simp del: replicate_Suc)
        qed
        have len3: "length (stream ?w3) = 2 * Suc ?cur" using st3 lenB by simp
        have j26: "j < 27"
        proof -
          have "8 * (2 :: nat) ^ j < 2 ^ 30" using room n8 lenB j(2) by simp
          then have lt: "(2 :: nat) ^ j < 2 ^ 27" by simp
          show ?thesis
          proof (rule ccontr)
            assume "\<not> j < 27"
            then have "(2 :: nat) ^ 27 \<le> 2 ^ j" by (intro power_increasing) simp_all
            then show False using lt by simp
          qed
        qed
        have pow: "\<exists>j' \<le> 27. length (stream ?w3) = 2 ^ j'"
          using len3 lenB j(2) j26 by (intro exI [of _ "Suc j"]) simp
        have bits3: "stream_bit (stream ?w3) i = (i < Suc ?n \<and> (bs @ [c]) ! i)"
          if "i < 8 * length (stream ?w3)" for i
        proof -
          have "i < 8 * (length ?s' + Suc ?cur)" using that len3 lenB by simp
          then have "stream_bit (stream ?w3) i = (i < 8 * length ?s' \<and> stream_bit ?s' i)"
            unfolding st3 by (rule stream_bit_append_zero)
          moreover have "Suc ?n = 8 * length ?s" using lenB n8 by simp
          ultimately show ?thesis using bits' [of i] by auto
        qed
        have "writer_inv ?w3 (bs @ [c])"
          unfolding writer_inv_def
        proof (intro conjI)
          show "int (length (stream ?w3)) = bytesAllocated ?w3" using len3 by simp
          show "granularity ?w3 = 2" using inv2(2) by simp
          show "\<exists>j' \<le> 27. length (stream ?w3) = 2 ^ j'" using pow .
          show "numBitsWritten ?w3 = int (length (bs @ [c]))" using inv2(3) by simp
          show "currBytePos ?w3 = int (length (bs @ [c]) div 8)" using inv2(4) by simp
          show "nextBitPos ?w3 = int (length (bs @ [c]) mod 8)" using inv2(5) by simp
          show "length (bs @ [c]) div 8 < length (stream ?w3)" using len3 d by simp
          show "\<forall>i < 8 * length (stream ?w3).
                  stream_bit (stream ?w3) i = (i < length (bs @ [c]) \<and> (bs @ [c]) ! i)"
            using bits3 by simp
        qed
        then show ?thesis using ap room by auto
      next
        case False
        then have "\<not> int_range (bytesAllocated w2 * granularity w2 * 8)"
          unfolding req by (simp add: int_range_def)
        then show ?thesis using ap0 full False by simp
      qed
    qed
  qed
qed

lemma mask_test_64: "((num :: 64 word) AND push_bit n 1 \<noteq> 0) = bit num n"
  by (simp add: bit_iff_and_push_bit_not_eq_0)

lemma mask_test_64_pow: "((num :: 64 word) AND 2 ^ n \<noteq> 0) = bit num n"
  using mask_test_64 [of num n] by simp

lemma appendBitsU64_loop_inv:
  assumes "writer_inv w bs" "0 \<le> b"
  shows "if length bs + nat (bitCount - b) < 2 ^ 30
         then \<exists>w'. appendBitsU64_loop num bitCount b w = Inr w'
                \<and> writer_inv w' (bs @ map (bit num) [nat b ..< nat bitCount])
         else appendBitsU64_loop num bitCount b w = Inl Overflow"
  using assms
proof (induction "nat (bitCount - b)" arbitrary: b w bs)
  case 0
  then have nlt: "\<not> b < bitCount" by simp
  then have l: "appendBitsU64_loop num bitCount b w = Inr w"
    by (simp add: appendBitsU64_loop.simps)
  have "nat bitCount \<le> nat b" using nlt by simp
  then have e: "bs @ map (bit num) [nat b ..< nat bitCount] = bs" by simp
  have room: "length bs + nat (bitCount - b) < 2 ^ 30"
    using writer_inv_room [OF "0.prems"(1)] "0.hyps" by simp
  show ?case unfolding e l using room "0.prems"(1) by simp
next
  case (Suc k)
  then have lt: "b < bitCount" by simp
  have step: "appendBitsU64_loop num bitCount b w =
        (case appendBit (if bit num (nat b) then 1 else 0) w of
           Inl e \<Rightarrow> Inl e | Inr w' \<Rightarrow> appendBitsU64_loop num bitCount (b + 1) w')"
    using lt
    by (subst appendBitsU64_loop.simps) (cases "bit num (nat b)"; simp add: mask_test_64_pow Let_def)
  have k: "k = nat (bitCount - (b + 1))" using Suc.hyps(2) by simp
  have sum: "length bs + nat (bitCount - b) = Suc (length bs) + nat (bitCount - (b + 1))"
    using lt by simp
  show ?case
  proof (cases "Suc (length bs) < 2 ^ 30")
    case False
    then have "appendBit (if bit num (nat b) then 1 else 0) w = Inl Overflow"
      using appendBit_inv [OF Suc.prems(1), of "bit num (nat b)"] by simp
    moreover have "\<not> length bs + nat (bitCount - b) < 2 ^ 30" using False sum by simp
    ultimately show ?thesis using step by simp
  next
    case True
    then obtain w1 where w1: "appendBit (if bit num (nat b) then 1 else 0) w = Inr w1"
      "writer_inv w1 (bs @ [bit num (nat b)])"
      using appendBit_inv [OF Suc.prems(1), of "bit num (nat b)"] by auto
    have eq: "[nat b ..< nat bitCount] = nat b # [nat (b + 1) ..< nat bitCount]"
      using lt Suc.prems(2) by (simp add: upt_conv_Cons nat_add_distrib)
    have app: "bs @ map (bit num) [nat b ..< nat bitCount] =
             (bs @ [bit num (nat b)]) @ map (bit num) [nat (b + 1) ..< nat bitCount]"
      using eq by simp
    have st: "appendBitsU64_loop num bitCount b w = appendBitsU64_loop num bitCount (b + 1) w1"
      using step w1(1) by simp
    have b1: "0 \<le> b + 1" using Suc.prems(2) by simp
    from Suc.hyps(1) [OF k w1(2) b1]
    show ?thesis unfolding st app sum by simp
  qed
qed

lemma appendBitsU64_inv:
  assumes "writer_inv w bs"
  shows "if length bs + nat bitCount < 2 ^ 30
         then \<exists>w'. appendBitsU64 num bitCount w = Inr w'
                \<and> writer_inv w' (bs @ map (bit num) [0 ..< nat bitCount])
         else appendBitsU64 num bitCount w = Inl Overflow"
  using appendBitsU64_loop_inv [OF assms, of 0 bitCount num]
  by (auto simp: appendBitsU64_def split: if_splits)

lemma stream_bit_zeros: "i < 8 * n \<Longrightarrow> \<not> stream_bit (replicate n 0) i"
  by (simp add: stream_bit_def)

lemma BitStreamWriter_default_eq: "BitStreamWriter_default = Inr writer0"
  by (simp add: BitStreamWriter_default_def allocate_def internalInit_def allocBytes_def Let_def
        writer0_def)

lemma writer0_inv: "writer_inv writer0 []"
proof -
  have "length (replicate 1024 (0 :: byte)) = 2 ^ 10" by simp
  then have "\<exists>j \<le> 27. length (replicate 1024 (0 :: byte)) = 2 ^ j"
    by (intro exI [of _ 10]) simp
  then show ?thesis
    by (simp add: writer_inv_def writer0_def internalInit_def stream_bit_zeros)
qed

lemma BitStreamReader_init_at: "BitStreamReader_init s nb n = reader_at s nb n 0"
  by (simp add: BitStreamReader_init_def reader_at_def)

lemma mask_test_byte:
  assumes "k < 8"
  shows "((ucast (x :: byte) :: 32 word) AND push_bit k 1 \<noteq> 0) = bit x k"
proof -
  have "bit (ucast x :: 32 word) k = bit x k" using assms by (simp add: bit_ucast_iff)
  then show ?thesis by (simp only: bit_iff_and_push_bit_not_eq_0)
qed

lemma readNextBit_end:
  assumes "n \<le> int p"
  shows "readNextBit (reader_at s nb n p) = Inr (None, reader_at s nb n p)"
  using assms by (simp add: readNextBit_def reader_at_def)

lemma readNextBit_at:
  assumes "int p < n" "n \<le> 8 * int (length s)"
  shows "readNextBit (reader_at s nb n p) =
         Inr (Some (if stream_bit s p then 1 else 0), reader_at s nb n (Suc p))"
proof -
  have inr: "p div 8 < length s" using assms by auto
  have k8: "p mod 8 < 8" by simp
  show ?thesis
  proof (cases "p mod 8 + 1 = 8")
    case True
    then have "Suc p div 8 = Suc (p div 8)" "Suc p mod 8 = 0" by (simp_all add: div_Suc mod_Suc)
    then show ?thesis using assms(1) inr True mask_test_byte [OF k8]
      by (simp add: readNextBit_def reader_at_def Let_def stream_bit_def)
  next
    case False
    then have "Suc p div 8 = p div 8" "Suc p mod 8 = Suc (p mod 8)" by (simp_all add: div_Suc mod_Suc)
    then show ?thesis using assms(1) inr False mask_test_byte [OF k8]
      by (simp add: readNextBit_def reader_at_def Let_def stream_bit_def)
  qed
qed

lemma set_bit_64:
  "bit (((num :: 64 word) AND NOT (push_bit k 1)) OR (word_of_int (- (if c then 1 else 0)) AND push_bit k 1)) j
   = (if j = k then k < 64 \<and> c else bit num j)"
  by (cases c) (auto simp: bit_simps dest: bit_imp_le_length)

lemma readBitsU64_loop_at:
  assumes "n \<le> 8 * int (length s)" "0 \<le> b"
  shows "\<exists>num'. readBitsU64_loop bitCount b num (reader_at s nb n p) =
                  Inr (num', reader_at s nb n (p + min (nat (bitCount - b)) (nat (n - int p))))
          \<and> (\<forall>j. bit num' j =
                 (if nat b \<le> j \<and> j < nat b + min (nat (bitCount - b)) (nat (n - int p))
                  then j < 64 \<and> stream_bit s (p + (j - nat b)) else bit num j))"
  using assms(2)
proof (induction "nat (bitCount - b)" arbitrary: b num p)
  case 0
  then have "\<not> b < bitCount" by simp
  then have "readBitsU64_loop bitCount b num (reader_at s nb n p) = Inr (num, reader_at s nb n p)"
    by (simp add: readBitsU64_loop.simps)
  moreover have "min (nat (bitCount - b)) (nat (n - int p)) = 0" using 0 by simp
  ultimately show ?case by auto
next
  case (Suc k)
  then have lt: "b < bitCount" by simp
  show ?case
  proof (cases "n \<le> int p")
    case True
    then have "readBitsU64_loop bitCount b num (reader_at s nb n p) = Inr (num, reader_at s nb n p)"
      using lt by (subst readBitsU64_loop.simps) (simp add: readNextBit_end)
    moreover have "min (nat (bitCount - b)) (nat (n - int p)) = 0" using True by simp
    ultimately show ?thesis by auto
  next
    case False
    then have pn: "int p < n" by simp
    let ?c = "stream_bit s p"
    define num1 where "num1 = (num AND NOT (push_bit (nat b) 1)) OR (word_of_int (- (if ?c then 1 else 0)) AND push_bit (nat b) 1)"
    have n1bits: "bit num1 j = (if j = nat b then nat b < 64 \<and> ?c else bit num j)" for j
      unfolding num1_def by (rule set_bit_64)
    have k: "k = nat (bitCount - (b + 1))" using Suc.hyps(2) by simp
    have b1: "0 \<le> b + 1" using Suc.prems by simp
    let ?m' = "min (nat (bitCount - (b + 1))) (nat (n - int (Suc p)))"
    from Suc.hyps(1) [OF k b1, of num1 "Suc p"]
    obtain num' where r: "readBitsU64_loop bitCount (b + 1) num1 (reader_at s nb n (Suc p)) =
                  Inr (num', reader_at s nb n (Suc p + ?m'))"
      and bits: "\<And>j. bit num' j =
                 (if nat (b + 1) \<le> j \<and> j < nat (b + 1) + ?m'
                  then j < 64 \<and> stream_bit s (Suc p + (j - nat (b + 1))) else bit num1 j)"
      by blast
    have m: "min (nat (bitCount - b)) (nat (n - int p)) = Suc ?m'"
      using lt pn by (simp add: min_def) linarith
    have step: "readBitsU64_loop bitCount b num (reader_at s nb n p) =
                readBitsU64_loop bitCount (b + 1) num1 (reader_at s nb n (Suc p))"
      using lt by (subst readBitsU64_loop.simps)
                  (cases ?c; simp add: readNextBit_at [OF pn assms(1)] Let_def num1_def)
    have nb1: "nat (b + 1) = Suc (nat b)" using Suc.prems by simp
    have "bit num' j =
           (if nat b \<le> j \<and> j < nat b + Suc ?m'
            then j < 64 \<and> stream_bit s (p + (j - nat b)) else bit num j)" for j
    proof (cases "j = nat b")
      case True
      then show ?thesis unfolding bits [of j] nb1 by (simp add: n1bits)
    next
      case False
      then have "Suc p + (j - Suc (nat b)) = p + (j - nat b)" if "Suc (nat b) \<le> j"
        using that by simp
      then show ?thesis unfolding bits [of j] nb1 using False by (auto simp: n1bits)
    qed
    then show ?thesis unfolding m step r by simp
  qed
qed

lemma bit_word_of_bits: "bit (word_of_bits bs) j = (j < 64 \<and> j < length bs \<and> bs ! j)"
  by (auto simp: word_of_bits_def bit_horner_sum_bit_word_iff)

lemma readBitsU64_at:
  assumes "n \<le> 8 * int (length s)"
  shows "readBitsU64 (reader_at s nb n p) w =
         Inr (word_of_bits (map (stream_bit s) [p ..< p + min (nat w) (nat (n - int p))]),
              reader_at s nb n (p + min (nat w) (nat (n - int p))))"
proof -
  let ?m = "min (nat w) (nat (n - int p))"
  have "\<exists>num'. readBitsU64_loop w 0 0 (reader_at s nb n p) =
                  Inr (num', reader_at s nb n (p + min (nat (w - 0)) (nat (n - int p))))
          \<and> (\<forall>j. bit num' j =
                 (if nat 0 \<le> j \<and> j < nat 0 + min (nat (w - 0)) (nat (n - int p))
                  then j < 64 \<and> stream_bit s (p + (j - nat 0)) else bit (0 :: 64 word) j))"
    using assms by (intro readBitsU64_loop_at) simp_all
  then obtain num' where r: "readBitsU64 (reader_at s nb n p) w = Inr (num', reader_at s nb n (p + ?m))"
    and b0: "\<forall>j. bit num' j =
                 (if nat 0 \<le> j \<and> j < nat 0 + min (nat (w - 0)) (nat (n - int p))
                  then j < 64 \<and> stream_bit s (p + (j - nat 0)) else bit (0 :: 64 word) j)"
    unfolding readBitsU64_def by auto
  have bits: "bit num' j = (j < ?m \<and> j < 64 \<and> stream_bit s (p + j))" for j
    using b0 [rule_format, of j] by auto
  have "num' = word_of_bits (map (stream_bit s) [p ..< p + ?m])"
    by (rule bit_eqI) (auto simp: bits bit_word_of_bits)
  then show ?thesis using r by simp
qed

lemma write_all_inv:
  assumes "writer_inv w bs"
  shows "if length bs + length (all_bits ws) < 2 ^ 30
         then \<exists>w'. write_all ws w = Inr w' \<and> writer_inv w' (bs @ all_bits ws)
         else write_all ws w = Inl Overflow"
  using assms
proof (induction ws arbitrary: w bs)
  case Nil
  then show ?case using writer_inv_room [OF Nil] by (simp add: all_bits_def)
next
  case (Cons a ws)
  obtain v n where a: "a = (v, n)" by (cases a)
  have ab: "all_bits (a # ws) = map (bit v) [0 ..< nat n] @ all_bits ws"
    by (simp add: all_bits_def a)
  show ?case
  proof (cases "length bs + nat n < 2 ^ 30")
    case False
    then have "appendBitsU64 v n w = Inl Overflow"
      using appendBitsU64_inv [OF Cons.prems, of n v] by simp
    then show ?thesis using False a ab by simp
  next
    case True
    then obtain w1 where w1: "appendBitsU64 v n w = Inr w1"
      "writer_inv w1 (bs @ map (bit v) [0 ..< nat n])"
      using appendBitsU64_inv [OF Cons.prems, of n v] by auto
    have "write_all (a # ws) w = write_all ws w1" using w1(1) a by simp
    moreover have "length bs + length (all_bits (a # ws)) =
                   length (bs @ map (bit v) [0 ..< nat n]) + length (all_bits ws)"
      by (simp add: ab)
    moreover have "bs @ all_bits (a # ws) = (bs @ map (bit v) [0 ..< nat n]) @ all_bits ws"
      by (simp add: ab)
    ultimately show ?thesis using Cons.IH [OF w1(2)] by (simp only:)
  qed
qed

lemma read_all_at:
  assumes "n \<le> 8 * int (length s)"
    and "int (p + length (all_bits ws)) \<le> n"
    and "\<forall>i < length (all_bits ws). stream_bit s (p + i) = all_bits ws ! i"
  shows "read_all (map snd ws) (reader_at s nb n p) =
         Inr (map (\<lambda>(v, k). take_bit (nat k) v) ws, reader_at s nb n (p + length (all_bits ws)))"
  using assms(2,3)
proof (induction ws arbitrary: p)
  case Nil
  then show ?case by (simp add: all_bits_def)
next
  case (Cons a ws)
  obtain v k where a: "a = (v, k)" by (cases a)
  have ab: "all_bits (a # ws) = map (bit v) [0 ..< nat k] @ all_bits ws"
    by (simp add: all_bits_def a)
  have len: "length (all_bits (a # ws)) = nat k + length (all_bits ws)" by (simp add: ab)
  have "int (nat k) \<le> n - int p" using Cons.prems(1) len by linarith
  then have "nat k \<le> nat (n - int p)" by linarith
  then have m: "min (nat k) (nat (n - int p)) = nat k" by simp
  have "map (stream_bit s) [p ..< p + nat k] = map (bit v) [0 ..< nat k]"
  proof (rule nth_equalityI)
    show "length (map (stream_bit s) [p ..< p + nat k]) = length (map (bit v) [0 ..< nat k])" by simp
    fix i assume "i < length (map (stream_bit s) [p ..< p + nat k])"
    then have i: "i < nat k" by simp
    then have "stream_bit s (p + i) = all_bits (a # ws) ! i" using Cons.prems(2) len by simp
    also have "\<dots> = bit v i" using i by (simp add: ab nth_append)
    finally show "map (stream_bit s) [p ..< p + nat k] ! i = map (bit v) [0 ..< nat k] ! i"
      using i by simp
  qed
  then have rd: "readBitsU64 (reader_at s nb n p) k = Inr (take_bit (nat k) v, reader_at s nb n (p + nat k))"
    using readBitsU64_at [OF assms(1), of nb p k] m
    by (simp add: word_of_bits_def horner_sum_bit_eq_take_bit)
  have "read_all (map snd ws) (reader_at s nb n (p + nat k)) =
         Inr (map (\<lambda>(v, k). take_bit (nat k) v) ws, reader_at s nb n (p + nat k + length (all_bits ws)))"
  proof (rule Cons.IH)
    show "int (p + nat k + length (all_bits ws)) \<le> n" using Cons.prems(1) len by simp
    show "\<forall>i<length (all_bits ws). stream_bit s (p + nat k + i) = all_bits ws ! i"
    proof (intro allI impI)
      fix i assume i: "i < length (all_bits ws)"
      then have "stream_bit s (p + (nat k + i)) = all_bits (a # ws) ! (nat k + i)"
        using Cons.prems(2) len by simp
      then show "stream_bit s (p + nat k + i) = all_bits ws ! i"
        by (simp add: ab nth_append add.assoc)
    qed
  qed
  then show ?case using rd a len by (simp add: add.assoc)
qed

lemma writer_inv_covers:
  assumes "writer_inv w bs"
  shows "numBitsWritten w \<le> 8 * int (length (stream w))" "nat (getByteCount w) \<le> length (stream w)"
proof -
  from assms have n: "numBitsWritten w = int (length bs)" and c: "length bs div 8 < length (stream w)"
    by (auto simp: writer_inv_def)
  show "numBitsWritten w \<le> 8 * int (length (stream w))" using n c by auto
  have "getByteCount w \<le> int (length bs div 8) + 1"
    by (simp add: getByteCount_def Let_def n zdiv_int)
  then show "nat (getByteCount w) \<le> length (stream w)" using c by linarith
qed

text \<open>
  Appending and reading back below \<open>2 ^ 30\<close> bits. After any sequence of prior writes to a
  default-constructed writer that, with the appended value, make fewer than \<open>2 ^ 30\<close> bits, appending the value \<open>v\<close> with a width \<open>w\<close>
  between 1 and 64 and then reading \<open>w\<close> bits from the resulting buffer at the same bit
  offset (that is, after reading the prior writes back) yields the \<open>w\<close> low-order bits of
  \<open>v\<close>. The buffer holds the written bits least significant bit first in each byte, and the
  bits after the last written one are zero up to the end of the last byte in use.
\<close>

theorem C4_append_then_read:
  assumes "1 \<le> w" "w \<le> 64" and "\<forall>(v', w') \<in> set prior. 1 \<le> w' \<and> w' \<le> 64"
    and "length (all_bits (prior @ [(v, w)])) < 2 ^ 30"
  shows "\<exists>w0 wr. BitStreamWriter_default = Inr w0
           \<and> write_all (prior @ [(v, w)]) w0 = Inr wr
           \<and> numBitsWritten wr = int (length (all_bits (prior @ [(v, w)])))
           \<and> (\<exists>vals rd rd'.
                 read_all (map snd prior)
                   (BitStreamReader_init (stream wr) (getByteCount wr) (numBitsWritten wr)) = Inr (vals, rd)
                 \<and> numBitsRead rd = numBitsWritten wr - w
                 \<and> readBitsU64 rd w = Inr (take_bit (nat w) v, rd'))
           \<and> (\<forall>i < length (all_bits (prior @ [(v, w)])).
                 stream_bit (stream wr) i = all_bits (prior @ [(v, w)]) ! i)
           \<and> (\<forall>i. length (all_bits (prior @ [(v, w)])) \<le> i \<and> i < 8 * nat (getByteCount wr)
                 \<longrightarrow> \<not> stream_bit (stream wr) i)"
proof -
  let ?bs = "all_bits (prior @ [(v, w)])"
  from write_all_inv [OF writer0_inv, of "prior @ [(v, w)]"] assms(4)
  obtain wr where wr: "write_all (prior @ [(v, w)]) writer0 = Inr wr"
    and inv: "writer_inv wr ?bs" by auto
  let ?s = "stream wr" and ?n = "numBitsWritten wr" and ?p = "length (all_bits prior)"
  have n: "?n = int (length ?bs)" using inv by (simp add: writer_inv_def)
  have bs: "?bs = all_bits prior @ map (bit v) [0 ..< nat w]" by (simp add: all_bits_def)
  have cov: "?n \<le> 8 * int (length ?s)" and bc: "nat (getByteCount wr) \<le> length ?s"
    using writer_inv_covers [OF inv] by simp_all
  have sb: "stream_bit ?s i = (i < length ?bs \<and> ?bs ! i)" if "i < 8 * length ?s" for i
    using inv that by (simp add: writer_inv_def)
  have inb: "i < 8 * length ?s" if "i < length ?bs" for i using that cov n by linarith
  have r1: "read_all (map snd prior) (reader_at ?s (getByteCount wr) ?n 0) =
         Inr (map (\<lambda>(v, k). take_bit (nat k) v) prior, reader_at ?s (getByteCount wr) ?n (0 + ?p))"
  proof (rule read_all_at [OF cov])
    show "int (0 + ?p) \<le> ?n" using n bs by simp
    show "\<forall>i < ?p. stream_bit ?s (0 + i) = all_bits prior ! i"
      using sb inb bs by (simp add: nth_append)
  qed
  have "int (nat w) \<le> ?n - int ?p" using n bs by simp
  then have "nat w \<le> nat (?n - int ?p)" by linarith
  then have m: "min (nat w) (nat (?n - int ?p)) = nat w" by simp
  have "map (stream_bit ?s) [?p ..< ?p + nat w] = map (bit v) [0 ..< nat w]"
  proof (rule nth_equalityI)
    show "length (map (stream_bit ?s) [?p ..< ?p + nat w]) = length (map (bit v) [0 ..< nat w])" by simp
    fix i assume "i < length (map (stream_bit ?s) [?p ..< ?p + nat w])"
    then have i: "i < nat w" by simp
    then have "?p + i < length ?bs" using bs by simp
    then have "stream_bit ?s (?p + i) = ?bs ! (?p + i)" using sb inb by simp
    also have "\<dots> = bit v i" using i by (simp add: bs nth_append)
    finally show "map (stream_bit ?s) [?p ..< ?p + nat w] ! i = map (bit v) [0 ..< nat w] ! i"
      using i by simp
  qed
  then have r2: "readBitsU64 (reader_at ?s (getByteCount wr) ?n ?p) w =
        Inr (take_bit (nat w) v, reader_at ?s (getByteCount wr) ?n (?p + nat w))"
    using readBitsU64_at [OF cov, of "getByteCount wr" ?p w] m
    by (simp add: word_of_bits_def horner_sum_bit_eq_take_bit)
  have off: "numBitsRead (reader_at ?s (getByteCount wr) ?n ?p) = ?n - w"
    using n bs assms(1) by (simp add: reader_at_def)
  have tail: "\<not> stream_bit ?s i" if "length ?bs \<le> i" "i < 8 * nat (getByteCount wr)" for i
  proof -
    have "i < 8 * length ?s" using that(2) bc by linarith
    then show ?thesis using sb that(1) by simp
  qed
  show ?thesis
    using BitStreamWriter_default_eq wr n r1 r2 off sb inb tail
    by (intro exI [of _ writer0] exI [of _ wr] conjI) (auto simp: BitStreamReader_init_at)
qed

theorem C4_append_then_read_witness:
  "\<exists>w0 wr. BitStreamWriter_default = Inr w0
           \<and> write_all ([(0x155, 9)] @ [(0x3ff, 10)]) w0 = Inr wr
           \<and> numBitsWritten wr = int (length (all_bits ([(0x155, 9)] @ [(0x3ff, 10)])))
           \<and> (\<exists>vals rd rd'.
                 read_all (map snd [(0x155 :: 64 word, 9 :: int)])
                   (BitStreamReader_init (stream wr) (getByteCount wr) (numBitsWritten wr)) = Inr (vals, rd)
                 \<and> numBitsRead rd = numBitsWritten wr - 10
                 \<and> readBitsU64 rd 10 = Inr (take_bit (nat 10) 0x3ff, rd'))
           \<and> (\<forall>i < length (all_bits ([(0x155, 9)] @ [(0x3ff, 10)])).
                 stream_bit (stream wr) i = all_bits ([(0x155, 9)] @ [(0x3ff, 10)]) ! i)
           \<and> (\<forall>i. length (all_bits ([(0x155, 9)] @ [(0x3ff, 10)])) \<le> i \<and> i < 8 * nat (getByteCount wr)
                 \<longrightarrow> \<not> stream_bit (stream wr) i)"
  by (rule C4_append_then_read) (simp_all add: all_bits_def)

lemma length_all_bits_replicate:
  "length (all_bits (replicate k (v, n) @ ws)) = k * nat n + length (all_bits ws)"
  by (induction k) (simp_all add: all_bits_def)

text \<open>
  C4. Appending fails from \<open>2 ^ 30\<close> bits on: \<open>2 ^ 24\<close> writes of 64 bits to a
  default-constructed writer fill its buffer of \<open>2 ^ 27\<close> bytes, and with the last of these
  bits \<open>appendBit\<close> asks \<open>allocate\<close> for \<open>2 ^ 27 * 2 * 8\<close> bits, a product that is no \<open>int\<close>
  (the error \<open>Overflow\<close>). Appending one more bit after these writes returns no writer to read
  it from.
\<close>

theorem C4_failing_input:
  "\<exists>w0. BitStreamWriter_default = Inr w0
         \<and> write_all (replicate 16777216 (0, 64) @ [(1, 1)]) w0 = Inl Overflow"
proof -
  have "length (all_bits (replicate 16777216 (0 :: 64 word, 64 :: int) @ [(1, 1)])) =
          16777216 * nat 64 + length (all_bits [(1 :: 64 word, 1 :: int)])"
    by (rule length_all_bits_replicate)
  then have "\<not> length ([] :: bool list)
               + length (all_bits (replicate 16777216 (0 :: 64 word, 64 :: int) @ [(1, 1)])) < 2 ^ 30"
    by (simp only:) (simp add: all_bits_def)
  then have "write_all (replicate 16777216 (0, 64) @ [(1, 1)]) writer0 = Inl Overflow"
    using write_all_inv [OF writer0_inv, of "replicate 16777216 (0, 64) @ [(1, 1)]"]
    by (simp only: if_False)
  then show ?thesis using BitStreamWriter_default_eq by blast
qed

lemma run_reads_at:
  assumes "n \<le> 8 * int (length s)" "int p \<le> max 0 n"
  shows "\<exists>p'. run_reads ops (reader_at s nb n p) = Inr (reader_at s nb n p') \<and> int p' \<le> max 0 n"
  using assms(2)
proof (induction ops arbitrary: p)
  case Nil
  then show ?case by auto
next
  case (Cons a ops)
  show ?case
  proof (cases a)
    case ReadNextBit
    show ?thesis
    proof (cases "n \<le> int p")
      case True
      then show ?thesis using Cons ReadNextBit by (simp add: readNextBit_end)
    next
      case False
      then have "int p < n" by simp
      from readNextBit_at [OF this assms(1), of nb] Cons.IH [of "Suc p"] False
      show ?thesis by (simp add: ReadNextBit)
    qed
  next
    case (ReadBitsU64 w)
    let ?m = "min (nat w) (nat (n - int p))"
    have "int (p + ?m) \<le> max 0 n" using Cons.prems by auto
    from Cons.IH [OF this] readBitsU64_at [OF assms(1), of nb p w]
    show ?thesis by (simp add: ReadBitsU64)
  qed
qed

text \<open>
  C5. Over a buffer that holds only the bytes the declared bit count covers, whatever byte
  count is declared, no sequence of \<open>readNextBit\<close> and \<open>readBitsU64\<close> calls reads outside the
  buffer, and the number of bits consumed never exceeds the declared bit count. A
  \<open>readBitsU64\<close> call asking for more bits than remain returns the value assembled from the
  remaining bits and leaves the reader at the end of the stream.
\<close>

theorem C5_reader_within_sizeInBits:
  assumes "bitCount \<le> 8 * int (length buf)"
  shows "\<exists>r. run_reads ops (BitStreamReader_init buf byteCount bitCount) = Inr r
          \<and> 0 \<le> numBitsRead r \<and> numBitsRead r \<le> max 0 bitCount
          \<and> rcurrBytePos r = numBitsRead r div 8
          \<and> (\<forall>w. bitCount - numBitsRead r < w \<longrightarrow>
                (\<exists>r'. readBitsU64 r w =
                        Inr (word_of_bits (map (stream_bit buf) [nat (numBitsRead r) ..< nat bitCount]), r')
                     \<and> isEndOfStream r' \<and> numBitsRead r' \<le> max 0 bitCount))"
proof -
  from run_reads_at [OF assms, of 0 ops byteCount]
  obtain p where p: "run_reads ops (reader_at buf byteCount bitCount 0) = Inr (reader_at buf byteCount bitCount p)"
    "int p \<le> max 0 bitCount" by auto
  let ?r = "reader_at buf byteCount bitCount p"
  have f: "numBitsRead ?r = int p" "rcurrBytePos ?r = int p div 8"
    by (simp_all add: reader_at_def zdiv_int)
  have part: "\<exists>r'. readBitsU64 ?r w =
                   Inr (word_of_bits (map (stream_bit buf) [nat (numBitsRead ?r) ..< nat bitCount]), r')
                 \<and> isEndOfStream r' \<and> numBitsRead r' \<le> max 0 bitCount"
    if "bitCount - numBitsRead ?r < w" for w
  proof -
    have "nat (bitCount - int p) \<le> nat w" using that f by linarith
    then have m: "min (nat w) (nat (bitCount - int p)) = nat (bitCount - int p)" by simp
    have e: "p + nat (bitCount - int p) = max p (nat bitCount)" by linarith
    have "[p ..< max p (nat bitCount)] = [p ..< nat bitCount]" by (simp add: max_def)
    then show ?thesis
      using readBitsU64_at [OF assms, of byteCount p w] p(2) unfolding m e f
      by (auto simp: isEndOfStream_def reader_at_def)
  qed
  show ?thesis
    using p f part by (intro exI [of _ ?r]) (simp add: BitStreamReader_init_at)
qed

theorem C5_reader_within_sizeInBits_witness:
  "\<exists>r. run_reads [ReadBitsU64 9, ReadNextBit, ReadBitsU64 12] (BitStreamReader_init [0x55, 0xff, 0x07] 4 19) = Inr r
          \<and> 0 \<le> numBitsRead r \<and> numBitsRead r \<le> max 0 19
          \<and> rcurrBytePos r = numBitsRead r div 8
          \<and> (\<forall>w. 19 - numBitsRead r < w \<longrightarrow>
                (\<exists>r'. readBitsU64 r w =
                        Inr (word_of_bits (map (stream_bit [0x55, 0xff, 0x07]) [nat (numBitsRead r) ..< nat 19]), r')
                     \<and> isEndOfStream r' \<and> numBitsRead r' \<le> max 0 19))"
  by (rule C5_reader_within_sizeInBits) simp

subsection \<open>Dictionary chains\<close>

declare findIndex_loop.simps [simp del] walk.simps [simp del]

lemma Nil_code_eq: "Nil_code = - 1"
  by (simp add: Nil_code_def)

lemma chain_nonempty: "chain d c bs \<Longrightarrow> bs \<noteq> []"
  by (induction rule: chain.induct) auto

lemma chain_length: "chain d c bs \<Longrightarrow> 0 \<le> c \<Longrightarrow> int (length bs) \<le> c + 1"
  by (induction rule: chain.induct) auto

lemma chain_det: "chain d c bs \<Longrightarrow> chain d c bs' \<Longrightarrow> bs = bs'"
proof (induction arbitrary: bs' rule: chain.induct)
  case (root c e)
  from root.prems root.hyps show ?case by (cases rule: chain.cases) auto
next
  case (link c e bs)
  from link.prems show ?case
  proof (cases rule: chain.cases)
    case (root e')
    then show ?thesis using link.hyps by auto
  next
    case (link e' bs0)
    then show ?thesis using link.hyps link.IH by auto
  qed
qed

lemma chain_cong:
  "chain d c bs \<Longrightarrow> 0 \<le> c \<Longrightarrow> (\<And>i. 0 \<le> i \<Longrightarrow> i \<le> c \<Longrightarrow> entries d' i = entries d i) \<Longrightarrow>
   chain d' c bs"
proof (induction rule: chain.induct)
  case (root c e)
  then show ?case by (auto intro: chain.root)
next
  case (link c e bs)
  have "chain d' (entry_code e) bs" using link.hyps(2,3) link.prems by (intro link.IH) auto
  then show ?case using link.hyps link.prems by (auto intro: chain.link)
qed

lemma chain_root: "dict_wf d \<Longrightarrow> 0 \<le> v \<Longrightarrow> v < 256 \<Longrightarrow> chain d v [word_of_int v]"
  using chain.root [of d v "\<lparr>entry_code = - 1, entry_value = v\<rparr>"] by (simp add: dict_wf_def)

lemma chain_link':
  assumes "entries d c = Some \<lparr>entry_code = p, entry_value = v\<rparr>" "0 \<le> p" "p < c" "chain d p bs"
  shows "chain d c (bs @ [word_of_int v])"
  using chain.link [of d c "\<lparr>entry_code = p, entry_value = v\<rparr>" bs] assms by simp

lemma dict_wf_entry:
  "dict_wf d \<Longrightarrow> 256 \<le> i \<Longrightarrow> i < dsize d \<Longrightarrow>
   \<exists>e. entries d i = Some e \<and> 0 \<le> entry_code e \<and> entry_code e < i
        \<and> 0 \<le> entry_value e \<and> entry_value e < 256"
  by (simp add: dict_wf_def)

lemma dict_wf_root:
  "dict_wf d \<Longrightarrow> 0 \<le> i \<Longrightarrow> i < 256 \<Longrightarrow> entries d i = Some \<lparr>entry_code = - 1, entry_value = i\<rparr>"
  by (simp add: dict_wf_def)

lemma chain_exists:
  assumes "dict_wf d" "0 \<le> c" "c < dsize d"
  shows "\<exists>bs. chain d c bs"
  using assms(2,3)
proof (induction "nat c" arbitrary: c rule: less_induct)
  case less
  show ?case
  proof (cases "c < 256")
    case True
    then show ?thesis using chain_root [OF assms(1) less.prems(1)] by blast
  next
    case False
    then obtain e where e: "entries d c = Some e" "0 \<le> entry_code e" "entry_code e < c"
      using dict_wf_entry [OF assms(1), of c] less.prems by auto
    then have "\<exists>bs. chain d (entry_code e) bs"
      using less.prems by (intro less.hyps) auto
    then show ?thesis using e chain.link by blast
  qed
qed

lemma walk_chain:
  "chain d c bs \<Longrightarrow> int (length acc + length bs) \<le> 4096 \<Longrightarrow> walk d c acc = Inr (acc @ rev bs)"
proof (induction arbitrary: acc rule: chain.induct)
  case (root c e)
  then show ?case by (subst walk.simps) (simp add: MaxDictEntries_eq)
next
  case (link c e bs)
  have "walk d (entry_code e) (acc @ [word_of_int (entry_value e)]) =
        Inr ((acc @ [word_of_int (entry_value e)]) @ rev bs)"
    using link.prems by (intro link.IH) simp
  then show ?case using link.hyps link.prems
    by (subst walk.simps) (simp add: MaxDictEntries_eq)
qed

lemma output_cells_eq:
  "output_cells bs cap (out, n) =
     (bs = [] \<or> int (length bs) \<le> cap - n,
      (out @ take (nat (cap - n)) bs, n + int (min (length bs) (nat (cap - n)))))"
proof (induction bs arbitrary: out n)
  case Nil
  then show ?case by simp
next
  case (Cons b bs)
  show ?case
  proof (cases "n \<ge> cap")
    case True
    have z: "nat (cap - n) = 0" using True by linarith
    have "\<not> int (length (b # bs)) \<le> cap - n" using True by simp
    then show ?thesis using True z by (simp add: outputByte_def)
  next
    case False
    then have "nat (cap - n) = Suc (nat (cap - (n + 1)))" by simp
    then show ?thesis using False Cons.IH [of "out @ [b]" "n + 1"]
      by (auto simp: outputByte_def)
  qed
qed

lemma outputSequence_chain:
  assumes "chain d c bs" "0 \<le> c" "c < 4096"
  shows "outputSequence d c cap (out, n) =
         Inr (int (length bs) \<le> cap - n,
              (out @ take (nat (cap - n)) bs, n + int (min (length bs) (nat (cap - n)))),
              uint (hd bs))"
proof -
  have "int (length bs) \<le> 4096" using chain_length [OF assms(1,2)] assms(3) by simp
  then have w: "walk d c [] = Inr (rev bs)" using walk_chain [OF assms(1), of "[]"] by simp
  have "last (rev bs) = hd bs" using chain_nonempty [OF assms(1)] by (simp add: last_rev)
  then show ?thesis using chain_nonempty [OF assms(1)]
    by (simp add: outputSequence_def w output_cells_eq)
qed

subsection \<open>The encoder keeps its invariant\<close>

lemma flush_eq:
  assumes "9 \<le> w" "w \<le> 12"
  shows "flush w d =
           (if dsize d = 2 ^ nat w
            then (if w = 12 then (True, d\<lparr>dsize := 256\<rparr>, 9) else (False, d, w + 1))
            else (False, d, w))"
  using assms by (auto simp: flush_def Let_def MaxDictBits_def FirstCode_eq StartBits_def push_bit_eq_mult)

lemma add_eq:
  assumes "dsize d \<noteq> 4096"
  shows "snd (add c v d) =
         d\<lparr>entries := (entries d)(dsize d \<mapsto> \<lparr>entry_code = c, entry_value = v\<rparr>), dsize := dsize d + 1\<rparr>"
  using assms by (simp add: add_def MaxDictEntries_eq)

lemma dict_wf_some:
  assumes "dict_wf d" "0 \<le> i" "i < dsize d"
  shows "\<exists>e. entries d i = Some e"
  using dict_wf_root [OF assms(1,2)] dict_wf_entry [OF assms(1) _ assms(3)]
  by (cases "i < 256") auto

lemma findIndex_loop_wf:
  assumes "dict_wf d" "0 \<le> i"
  shows "\<exists>r. findIndex_loop d c v i = Inr r
           \<and> (r = Nil_code \<or> (i \<le> r \<and> r < dsize d
                 \<and> entries d r = Some \<lparr>entry_code = c, entry_value = v\<rparr>))"
  using assms(2)
proof (induction "nat (dsize d - i)" arbitrary: i)
  case 0
  then have "\<not> i < dsize d" by simp
  then show ?case by (subst findIndex_loop.simps) simp
next
  case (Suc k)
  then have lt: "i < dsize d" by simp
  from dict_wf_some [OF assms(1) Suc.prems lt] obtain e where e: "entries d i = Some e" by blast
  show ?case
  proof (cases "entry_code e = c \<and> entry_value e = v")
    case True
    then have "e = \<lparr>entry_code = c, entry_value = v\<rparr>" by simp
    then show ?thesis using e lt by (subst findIndex_loop.simps) simp
  next
    case False
    have "k = nat (dsize d - (i + 1))" using Suc.hyps(2) by simp
    from Suc.hyps(1) [OF this] Suc.prems
    obtain r where "findIndex_loop d c v (i + 1) = Inr r"
      "r = Nil_code \<or> (i + 1 \<le> r \<and> r < dsize d \<and> entries d r = Some \<lparr>entry_code = c, entry_value = v\<rparr>)"
      by auto
    then show ?thesis using e lt False by (subst findIndex_loop.simps) auto
  qed
qed

lemma findIndex_Nil: "findIndex Nil_code v d = Inr v"
  by (simp add: findIndex_def)

lemma findIndex_wf:
  assumes "dict_wf d" "0 \<le> c"
  shows "\<exists>r. findIndex c v d = Inr r
           \<and> (r = Nil_code \<or> (256 \<le> r \<and> r < dsize d
                 \<and> entries d r = Some \<lparr>entry_code = c, entry_value = v\<rparr>))"
proof -
  from findIndex_loop_wf [OF assms(1), of 0 c v]
  obtain r where r: "findIndex_loop d c v 0 = Inr r"
    "r = Nil_code \<or> (0 \<le> r \<and> r < dsize d \<and> entries d r = Some \<lparr>entry_code = c, entry_value = v\<rparr>)"
    by auto
  have "256 \<le> r" if "0 \<le> r" "entries d r = Some \<lparr>entry_code = c, entry_value = v\<rparr>"
  proof (rule ccontr)
    assume "\<not> 256 \<le> r"
    then have "entries d r = Some \<lparr>entry_code = - 1, entry_value = r\<rparr>"
      using dict_wf_root [OF assms(1) that(1)] by simp
    then show False using that(2) assms(2) by simp
  qed
  then show ?thesis using r assms(2) by (auto simp: findIndex_def Nil_code_eq)
qed

lemma uint_byte_range: "0 \<le> uint (x :: byte) \<and> uint x < 256"
  using uint_lt2p [of x] by simp

lemma enc_step_found:
  assumes inv: "enc_inv s bs" and pend: "pending s pd"
    and f: "findIndex (enc_code s) (uint x) (enc_dictionary s) = Inr idx" "idx \<noteq> Nil_code"
  shows "enc_step x s = Inr (s\<lparr>enc_code := idx\<rparr>)"
    and "enc_inv (s\<lparr>enc_code := idx\<rparr>) bs"
    and "pending (s\<lparr>enc_code := idx\<rparr>) (pd @ [x])"
proof -
  let ?d = "enc_dictionary s"
  have wf: "dict_wf ?d" using inv by (simp add: enc_inv_def)
  show "enc_step x s = Inr (s\<lparr>enc_code := idx\<rparr>)" using f by (simp add: enc_step_def Let_def)
  have r: "0 \<le> idx \<and> idx < dsize ?d \<and> chain ?d idx (pd @ [x])"
  proof (cases "enc_code s = Nil_code")
    case True
    then have "idx = uint x" using f(1) by (simp add: findIndex_Nil)
    moreover have "pd = []" using True pend by (auto simp: pending_def Nil_code_eq)
    ultimately have "idx = uint x" "pd = []" by simp_all
    then show ?thesis using chain_root [OF wf, of "uint x"] uint_byte_range [of x] wf
      by (simp add: dict_wf_def)
  next
    case False
    then have c: "0 \<le> enc_code s" "chain ?d (enc_code s) pd" using pend by (simp_all add: pending_def)
    from findIndex_wf [OF wf c(1), of "uint x"] f
    have i: "256 \<le> idx" "idx < dsize ?d"
      "entries ?d idx = Some \<lparr>entry_code = enc_code s, entry_value = uint x\<rparr>" by auto
    from dict_wf_entry [OF wf i(1,2)] i(3) have "enc_code s < idx" by auto
    then have "chain ?d idx (pd @ [word_of_int (uint x)])"
      using chain_link' [OF i(3) c(1) _ c(2)] by simp
    then show ?thesis using i by simp
  qed
  then show "enc_inv (s\<lparr>enc_code := idx\<rparr>) bs" using inv by (simp add: enc_inv_def)
  show "pending (s\<lparr>enc_code := idx\<rparr>) (pd @ [x])" using r by (simp add: pending_def)
qed

lemma flush_eq':
  assumes "9 \<le> w" "w \<le> 12"
  shows "flush w d = (resets w (dsize d), (if resets w (dsize d) then d\<lparr>dsize := 256\<rparr> else d),
                      next_width w (dsize d))"
  using assms by (simp add: flush_eq resets_def next_width_def)

lemma next_width_range:
  assumes "9 \<le> w" "w \<le> 12"
  shows "9 \<le> next_width w n" "next_width w n \<le> 12"
  using assms by (auto simp: next_width_def)

lemma next_width_bound:
  assumes "9 \<le> w" "w \<le> 12" "n \<le> 2 ^ nat w" "\<not> resets w n"
  shows "n + 1 \<le> 2 ^ nat (next_width w n)" "n < 4096"
proof -
  have w: "w = 9 \<or> w = 10 \<or> w = 11 \<or> w = 12" using assms(1,2) by auto
  show "n + 1 \<le> 2 ^ nat (next_width w n)"
    using w assms(3,4) by (auto simp: next_width_def resets_def)
  show "n < 4096" using w assms(3,4) by (auto simp: resets_def)
qed

lemma dict_wf_reset: "dict_wf d \<Longrightarrow> dict_wf (d\<lparr>dsize := 256\<rparr>)"
  by (simp add: dict_wf_def)

lemma dict_wf_add:
  assumes "dict_wf d" "dsize d < 4096" "0 \<le> c" "c < dsize d" "0 \<le> v" "v < 256"
  shows "dict_wf (d\<lparr>entries := (entries d)(dsize d \<mapsto> \<lparr>entry_code = c, entry_value = v\<rparr>),
                    dsize := dsize d + 1\<rparr>)"
  using assms by (auto simp: dict_wf_def)

text \<open>
  A pass that emits a code needs room for it: the writer fails where the code reaches the
  bit number \<open>2 ^ 30\<close>, and the pass with it.
\<close>

lemma enc_step_room:
  assumes inv: "enc_inv s bs"
    and f: "findIndex (enc_code s) (uint x) (enc_dictionary s) = Inr Nil_code"
    and ok: "enc_step x s = Inr s1"
  shows "length bs + nat (enc_codeBitsWidth s) < 2 ^ 30"
proof (rule ccontr)
  assume "\<not> length bs + nat (enc_codeBitsWidth s) < 2 ^ 30"
  moreover have "writer_inv (enc_bitStream s) bs" using inv by (simp add: enc_inv_def)
  ultimately have "appendBitsU64 (word_of_int (enc_code s)) (enc_codeBitsWidth s) (enc_bitStream s)
                   = Inl Overflow"
    using appendBitsU64_inv [where bitCount = "enc_codeBitsWidth s" and num = "word_of_int (enc_code s)"]
    by simp
  then have "enc_step x s = Inl Overflow" using f by (simp add: enc_step_def Let_def)
  then show False using ok by simp
qed

lemma enc_step_emit:
  assumes inv: "enc_inv s bs"
    and f: "findIndex (enc_code s) (uint x) (enc_dictionary s) = Inr Nil_code"
    and room: "length bs + nat (enc_codeBitsWidth s) < 2 ^ 30"
  shows "0 \<le> enc_code s"
    and "\<exists>wr'. enc_step x s =
            Inr (s\<lparr>enc_bitStream := wr',
                   enc_dictionary := enc_next_dict (enc_codeBitsWidth s) (enc_code s) (uint x) (enc_dictionary s),
                   enc_codeBitsWidth := next_width (enc_codeBitsWidth s) (dsize (enc_dictionary s)),
                   enc_code := uint x\<rparr>)
          \<and> enc_inv (s\<lparr>enc_bitStream := wr',
                   enc_dictionary := enc_next_dict (enc_codeBitsWidth s) (enc_code s) (uint x) (enc_dictionary s),
                   enc_codeBitsWidth := next_width (enc_codeBitsWidth s) (dsize (enc_dictionary s)),
                   enc_code := uint x\<rparr>) (bs @ code_bits (enc_code s) (enc_codeBitsWidth s))"
proof -
  let ?d = "enc_dictionary s" and ?w = "enc_codeBitsWidth s" and ?c = "enc_code s"
  have wf: "dict_wf ?d" and wi: "writer_inv (enc_bitStream s) bs" and w: "9 \<le> ?w" "?w \<le> 12"
    and sz: "dsize ?d \<le> 2 ^ nat ?w" and cr: "?c = Nil_code \<or> (0 \<le> ?c \<and> ?c < dsize ?d)"
    using inv by (simp_all add: enc_inv_def)
  have ux: "0 \<le> uint x" "uint x < 256" using uint_byte_range [of x] by simp_all
  show c0: "0 \<le> ?c"
  proof (rule ccontr)
    assume "\<not> 0 \<le> ?c"
    then have "?c = Nil_code" using cr by auto
    then have "uint x = Nil_code" using f by (simp add: findIndex_Nil)
    then show False using ux by (simp add: Nil_code_eq)
  qed
  then have c: "?c < dsize ?d" using cr by (auto simp: Nil_code_eq)
  from appendBitsU64_inv [OF wi, where bitCount = ?w and num = "word_of_int ?c"] room
  obtain wr' where wr': "appendBitsU64 (word_of_int ?c) ?w (enc_bitStream s) = Inr wr'"
    "writer_inv wr' (bs @ code_bits ?c ?w)" by (auto simp: code_bits_def)
  let ?s' = "s\<lparr>enc_bitStream := wr',
                   enc_dictionary := enc_next_dict ?w ?c (uint x) ?d,
                   enc_codeBitsWidth := next_width ?w (dsize ?d),
                   enc_code := uint x\<rparr>"
  have d': "(if \<not> resets ?w (dsize ?d)
             then snd (add ?c (uint x) (if resets ?w (dsize ?d) then ?d\<lparr>dsize := 256\<rparr> else ?d))
             else (if resets ?w (dsize ?d) then ?d\<lparr>dsize := 256\<rparr> else ?d))
            = enc_next_dict ?w ?c (uint x) ?d"
  proof (cases "resets ?w (dsize ?d)")
    case True
    then show ?thesis by (simp add: enc_next_dict_def)
  next
    case False
    then have "dsize ?d \<noteq> 4096" using next_width_bound(2) [OF w sz] by simp
    then show ?thesis using False by (simp add: enc_next_dict_def add_eq)
  qed
  have st: "enc_step x s = Inr ?s'"
    using f wr'(1) d' by (simp add: enc_step_def Let_def flush_eq' [OF w])
  have wf': "dict_wf (enc_next_dict ?w ?c (uint x) ?d)"
    using wf next_width_bound(2) [OF w sz] c0 c ux
    by (simp add: enc_next_dict_def dict_wf_reset dict_wf_add)
  have sz': "dsize (enc_next_dict ?w ?c (uint x) ?d) \<le> 2 ^ nat (next_width ?w (dsize ?d))"
  proof (cases "resets ?w (dsize ?d)")
    case True
    then show ?thesis by (simp add: enc_next_dict_def next_width_def resets_def)
  next
    case False
    then show ?thesis using next_width_bound(1) [OF w sz False] by (simp add: enc_next_dict_def)
  qed
  have "256 \<le> dsize (enc_next_dict ?w ?c (uint x) ?d)" using wf' by (simp add: dict_wf_def)
  then have "enc_inv ?s' (bs @ code_bits ?c ?w)"
    using wf' wr'(2) next_width_range [OF w] sz' ux by (simp add: enc_inv_def)
  then show "\<exists>wr'. enc_step x s =
            Inr (s\<lparr>enc_bitStream := wr',
                   enc_dictionary := enc_next_dict (enc_codeBitsWidth s) (enc_code s) (uint x) (enc_dictionary s),
                   enc_codeBitsWidth := next_width (enc_codeBitsWidth s) (dsize (enc_dictionary s)),
                   enc_code := uint x\<rparr>)
          \<and> enc_inv (s\<lparr>enc_bitStream := wr',
                   enc_dictionary := enc_next_dict (enc_codeBitsWidth s) (enc_code s) (uint x) (enc_dictionary s),
                   enc_codeBitsWidth := next_width (enc_codeBitsWidth s) (dsize (enc_dictionary s)),
                   enc_code := uint x\<rparr>) (bs @ code_bits (enc_code s) (enc_codeBitsWidth s))"
    using st by blast
qed

subsection \<open>The decoder follows the encoder\<close>

lemma code_roundtrip:
  assumes "0 \<le> c" "c < 2 ^ nat w" "w \<le> 12"
  shows "sint (ucast (take_bit (nat w) (word_of_int c :: 64 word)) :: 32 word) = c"
proof -
  have "(2::int) ^ nat w \<le> 2 ^ 12" using assms(3) by (intro power_increasing) auto
  then have c: "c < 4096" using assms(2) by simp
  have "take_bit (nat w) c = c" using assms(1,2) by (simp add: take_bit_int_eq_self)
  then have a: "take_bit (nat w) (word_of_int c :: 64 word) = word_of_int c"
    by (metis take_bit_of_int)
  have "take_bit 64 c = c" using assms(1) c by (simp add: take_bit_int_eq_self)
  then have b: "(ucast (word_of_int c :: 64 word) :: 32 word) = word_of_int c"
    by (simp add: unsigned_of_int assms(1))
  have "sint (word_of_int c :: 32 word) = c"
    using assms(1) c by (simp add: sint_sbintrunc' signed_take_bit_int_eq_self)
  then show ?thesis by (simp add: a b)
qed

text \<open>Reading back the bits of a code at the width they were written with.\<close>

lemma read_code:
  assumes "n \<le> 8 * int (length s)" "int (p + nat w) \<le> n"
    and "\<forall>i < nat w. stream_bit s (p + i) = code_bits c w ! i"
  shows "readBitsU64 (reader_at s nb n p) w =
         Inr (take_bit (nat w) (word_of_int c), reader_at s nb n (p + nat w))"
proof -
  have "int (nat w) \<le> n - int p" using assms(2) by linarith
  then have "nat w \<le> nat (n - int p)" by linarith
  then have m: "min (nat w) (nat (n - int p)) = nat w" by simp
  have "map (stream_bit s) [p ..< p + nat w] = map (bit (word_of_int c :: 64 word)) [0 ..< nat w]"
  proof (rule nth_equalityI)
    show "length (map (stream_bit s) [p ..< p + nat w]) =
          length (map (bit (word_of_int c :: 64 word)) [0 ..< nat w])" by simp
    fix i assume "i < length (map (stream_bit s) [p ..< p + nat w])"
    then have i: "i < nat w" by simp
    then show "map (stream_bit s) [p ..< p + nat w] ! i =
               map (bit (word_of_int c :: 64 word)) [0 ..< nat w] ! i"
      using assms(3) by (simp add: code_bits_def)
  qed
  then show ?thesis
    using readBitsU64_at [OF assms(1), of nb p w] m
    by (simp add: word_of_bits_def horner_sum_bit_eq_take_bit)
qed

lemma dict_wf_cong:
  assumes "dict_wf d" "dsize d' = dsize d"
    and "\<And>i. 0 \<le> i \<Longrightarrow> i < dsize d \<Longrightarrow> entries d' i = entries d i"
  shows "dict_wf d'"
  using assms by (auto simp: dict_wf_def)

lemma byte_of_uint: "(word_of_int (uint (x :: byte)) :: byte) = x"
  by simp

text \<open>What the decoder writes for the code \<open>c\<close> when it has seen a code before.\<close>

lemma decode_lag_output:
  assumes wfE: "dict_wf dE" and c: "0 \<le> c" "c < dsize dE" and pd: "chain dE c pd"
    and pr: "0 \<le> prev" "prev < dsize dD" and sz: "dsize dE = dsize dD + 1"
    and ag: "\<And>i. 0 \<le> i \<Longrightarrow> i < dsize dD \<Longrightarrow> entries dD i = entries dE i"
    and en: "entries dE (dsize dD) = Some \<lparr>entry_code = prev, entry_value = uint (hd pd)\<rparr>"
    and cap: "int (length out + length pd) \<le> cap"
  shows "dec_sequence dD prev c cap (out, int (length out))
         = Inr (True, (out @ pd, int (length (out @ pd))), uint (hd pd))"
proof (cases "c \<ge> dsize dD")
  case False
  then have lt: "c < dsize dD" by simp
  have cD: "chain dD c pd"
  proof (rule chain_cong [OF pd c(1)])
    fix i :: int assume "0 \<le> i" "i \<le> c"
    then show "entries dD i = entries dE i" using ag lt by simp
  qed
  have c4: "c < 4096" using c(2) wfE by (simp add: dict_wf_def)
  have "outputSequence dD c cap (out, int (length out)) =
        Inr (True, (out @ pd, int (length (out @ pd))), uint (hd pd))"
    using outputSequence_chain [OF cD c(1) c4, of cap out "int (length out)"] cap by simp
  then show ?thesis using lt by (simp add: dec_sequence_def)
next
  case True
  then have ceq: "c = dsize dD" using c(2) sz by simp
  define v where "v = uint (hd pd)"
  from chain_exists [OF wfE pr(1)] pr(2) sz obtain ps where ps: "chain dE prev ps" by auto
  have "chain dE c (ps @ [word_of_int v])"
    using chain_link' [OF _ pr(1) _ ps, of c v] en pr(2) ceq by (simp add: v_def)
  then have pdeq: "pd = ps @ [word_of_int v]" using chain_det [OF pd] by simp
  have pne: "ps \<noteq> []" using chain_nonempty [OF ps] .
  have hd: "hd pd = hd ps" unfolding pdeq using pne by simp
  then have v: "v = uint (hd ps)" by (simp add: v_def)
  have len: "length pd = Suc (length ps)" unfolding pdeq by simp
  have cD: "chain dD prev ps"
  proof (rule chain_cong [OF ps pr(1)])
    fix i :: int assume "0 \<le> i" "i \<le> prev"
    then show "entries dD i = entries dE i" using ag pr(2) by simp
  qed
  have "prev < 4096" using pr(2) sz wfE by (simp add: dict_wf_def)
  then have os: "outputSequence dD prev cap (out, int (length out)) =
      Inr (True, (out @ ps, int (length out) + int (length ps)), v)"
    using outputSequence_chain [OF cD pr(1), of cap out "int (length out)"] cap len v by simp
  have ob: "outputByte v cap (out @ ps, int (length out) + int (length ps)) =
      (True, ((out @ ps) @ [word_of_int v], int (length out) + int (length ps) + 1))"
    using cap len by (simp add: outputByte_def)
  have "dec_sequence dD prev c cap (out, int (length out))
         = Inr (True, ((out @ ps) @ [word_of_int v], int (length out) + int (length ps) + 1), v)"
    using True by (simp add: dec_sequence_def os ob)
  also have "\<dots> = Inr (True, (out @ pd, int (length (out @ pd))), uint (hd pd))"
    unfolding pdeq using v pne by simp
  finally show ?thesis .
qed

lemma enc_point_eq:
  assumes "9 \<le> enc_codeBitsWidth E" "enc_codeBitsWidth E \<le> 12"
  shows "enc_point E =
         (if resets (enc_codeBitsWidth E) (dsize (enc_dictionary E)) then 256 else dsize (enc_dictionary E),
          next_width (enc_codeBitsWidth E) (dsize (enc_dictionary E)))"
  using assms by (simp add: enc_point_def flush_eq')

lemma not_resets_256: "9 \<le> w \<Longrightarrow> w \<le> 12 \<Longrightarrow> \<not> resets w 256" "9 \<le> w \<Longrightarrow> w \<le> 12 \<Longrightarrow> next_width w 256 = w"
proof -
  assume "9 \<le> w" "w \<le> 12"
  then have "w = 9 \<or> w = 10 \<or> w = 11 \<or> w = 12" by auto
  then show "\<not> resets w 256" "next_width w 256 = w" by (auto simp: resets_def next_width_def)
qed

lemma rel_next_fresh:
  assumes inv: "enc_inv E bsE" and r: "rel E D" and fresh: "dec_prevCode D = Nil_code"
    and c: "0 \<le> enc_code E"
    and D1: "dec_prevCode D1 = enc_code E" "dec_dictionary D1 = dec_dictionary D"
      "dec_codeBitsWidth D1 = dec_codeBitsWidth D"
  shows "rel (enc_next x wr E) D1" and "dec_point D1 = enc_point E"
proof -
  let ?dE = "enc_dictionary E" and ?dD = "dec_dictionary D" and ?w = "enc_codeBitsWidth E"
  have wfE: "dict_wf ?dE" and w: "9 \<le> ?w" "?w \<le> 12" using inv by (simp_all add: enc_inv_def)
  have wD: "dec_codeBitsWidth D = ?w" and wfD: "dict_wf ?dD"
    and sz: "dsize ?dE = 256" "dsize ?dD = 256" and c256: "enc_code E < 256"
    using r fresh by (simp_all add: rel_def)
  have nr: "\<not> resets ?w (dsize ?dE)" and nw: "next_width ?w (dsize ?dE) = ?w"
    using not_resets_256 [OF w] sz by simp_all
  let ?d1 = "enc_next_dict ?w (enc_code E) (uint x) ?dE"
  have d1: "?d1 = ?dE\<lparr>entries := (entries ?dE)(256 \<mapsto> \<lparr>entry_code = enc_code E, entry_value = uint x\<rparr>),
                      dsize := 257\<rparr>"
    using nr sz by (simp add: enc_next_dict_def)
  have ux: "0 \<le> uint x" "uint x < 256" using uint_byte_range [of x] by simp_all
  have wf1: "dict_wf ?d1"
    using dict_wf_add [OF wfE _ c _ ux, of] sz c256 unfolding d1 by simp
  have ch: "chain ?d1 (uint x) [word_of_int (uint x)]" using chain_root [OF wf1 ux] .
  have ag: "entries ?dD i = entries ?d1 i" if "0 \<le> i" "i < 256" for i
    using that dict_wf_root [OF wfD that] dict_wf_root [OF wfE that] by (simp add: d1)
  have "dec_prevCode D1 \<noteq> Nil_code" using D1(1) c by (simp add: Nil_code_eq)
  moreover have "\<exists>bs. chain ?d1 (uint x) bs \<and>
      entries ?d1 256 = Some \<lparr>entry_code = enc_code E, entry_value = uint (hd bs)\<rparr>"
    using ch by (intro exI [of _ "[word_of_int (uint x)]"]) (simp add: d1)
  ultimately show "rel (enc_next x wr E) D1"
    using D1 wD wfD sz c c256 nw ag ux by (simp add: rel_def enc_next_def d1)
  show "dec_point D1 = enc_point E"
    using D1 wD sz nr nw by (simp add: dec_point_def enc_point_eq [OF w])
qed

lemma dec_add_flush:
  assumes "9 \<le> w" "w \<le> 12" "dsize d \<noteq> 4096"
  shows "flush w (snd (add prev v d)) =
         (resets w (dsize d + 1), dec_next_dict w prev v d, next_width w (dsize d + 1))"
  using assms by (simp add: add_eq flush_eq' dec_next_dict_def)

lemma rel_next_lag:
  assumes inv: "enc_inv E bsE" and r: "rel E D" and lag: "dec_prevCode D \<noteq> Nil_code"
    and c: "0 \<le> enc_code E" and pd: "chain (enc_dictionary E) (enc_code E) pd"
    and D1: "dec_prevCode D1 = (if resets (enc_codeBitsWidth E) (dsize (enc_dictionary E))
                                then Nil_code else enc_code E)"
      "dec_dictionary D1 = dec_next_dict (enc_codeBitsWidth E) (dec_prevCode D) (uint (hd pd)) (dec_dictionary D)"
      "dec_codeBitsWidth D1 = next_width (enc_codeBitsWidth E) (dsize (enc_dictionary E))"
  shows "rel (enc_next x wr E) D1" and "dec_point D1 = enc_point E"
proof -
  let ?dE = "enc_dictionary E" and ?dD = "dec_dictionary D" and ?w = "enc_codeBitsWidth E"
  let ?prev = "dec_prevCode D" and ?v = "uint (hd pd)" and ?c = "enc_code E"
  have wfE: "dict_wf ?dE" and w: "9 \<le> ?w" "?w \<le> 12" and szw: "dsize ?dE \<le> 2 ^ nat ?w"
    and cr: "?c = Nil_code \<or> (0 \<le> ?c \<and> ?c < dsize ?dE)"
    using inv by (simp_all add: enc_inv_def)
  have clt: "?c < dsize ?dE" using cr c by (auto simp: Nil_code_eq)
  have sz: "dsize ?dE = dsize ?dD + 1"
    and ag: "\<And>i. 0 \<le> i \<Longrightarrow> i < dsize ?dD \<Longrightarrow> entries ?dD i = entries ?dE i"
    and ex: "\<exists>bs. chain ?dE ?c bs \<and>
                entries ?dE (dsize ?dD) = Some \<lparr>entry_code = ?prev, entry_value = uint (hd bs)\<rparr>"
    using r lag by (simp_all add: rel_def)
  from ex chain_det [OF pd]
  have en: "entries ?dE (dsize ?dD) = Some \<lparr>entry_code = ?prev, entry_value = ?v\<rparr>" by auto
  let ?da = "?dD\<lparr>entries := (entries ?dD)(dsize ?dD \<mapsto> \<lparr>entry_code = ?prev, entry_value = ?v\<rparr>),
                   dsize := dsize ?dD + 1\<rparr>"
  have aga: "entries ?da i = entries ?dE i" if "0 \<le> i" "i < dsize ?dE" for i
  proof (cases "i = dsize ?dD")
    case True
    then show ?thesis using en by simp
  next
    case False
    then have "i < dsize ?dD" using that(2) sz by linarith
    then show ?thesis using ag [OF that(1)] False by simp
  qed
  have wfa: "dict_wf ?da"
  proof (rule dict_wf_cong [OF wfE])
    show "dsize ?da = dsize ?dE" using sz by simp
    show "\<And>i. 0 \<le> i \<Longrightarrow> i < dsize ?dE \<Longrightarrow> entries ?da i = entries ?dE i" using aga .
  qed
  have ux: "0 \<le> uint x" "uint x < 256" using uint_byte_range [of x] by simp_all
  show "dec_point D1 = enc_point E"
    using D1 sz by (simp add: dec_point_def enc_point_eq [OF w] dec_next_dict_def)
  show "rel (enc_next x wr E) D1"
  proof (cases "resets ?w (dsize ?dE)")
    case True
    have "dec_dictionary D1 = ?da\<lparr>dsize := 256\<rparr>" using D1(2) True sz by (simp add: dec_next_dict_def)
    moreover have "dict_wf (?da\<lparr>dsize := 256\<rparr>)" using wfa by (rule dict_wf_reset)
    ultimately show ?thesis
      using True D1(1,3) ux by (simp add: rel_def enc_next_def enc_next_dict_def)
  next
    case False
    have dD1: "dec_dictionary D1 = ?da" using D1(2) False sz by (simp add: dec_next_dict_def)
    let ?d1 = "?dE\<lparr>entries := (entries ?dE)(dsize ?dE \<mapsto> \<lparr>entry_code = ?c, entry_value = uint x\<rparr>),
                   dsize := dsize ?dE + 1\<rparr>"
    have d1: "enc_next_dict ?w ?c (uint x) ?dE = ?d1" using False by (simp add: enc_next_dict_def)
    have lt: "dsize ?dE < 4096" using next_width_bound(2) [OF w szw False] .
    have wf1: "dict_wf ?d1" using dict_wf_add [OF wfE lt c clt ux] .
    have ch: "chain ?d1 (uint x) [word_of_int (uint x)]" using chain_root [OF wf1 ux] .
    have ag1: "entries ?da i = entries ?d1 i" if "0 \<le> i" "i < dsize ?dE" for i
      using aga [OF that] that by simp
    have "dec_prevCode D1 \<noteq> Nil_code" using D1(1) False c by (simp add: Nil_code_eq)
    moreover have "\<exists>bs. chain ?d1 (uint x) bs \<and>
        entries ?d1 (dsize ?dE) = Some \<lparr>entry_code = ?c, entry_value = uint (hd bs)\<rparr>"
      using ch by (intro exI [of _ "[word_of_int (uint x)]"]) simp
    ultimately show ?thesis
      using D1(1,3) dD1 d1 False wfa c clt sz ag1 ux
      by (simp add: rel_def enc_next_def)
  qed
qed

lemma dec_step_code:
  assumes inv: "enc_inv E bsE" and r: "rel E D" and c: "0 \<le> enc_code E"
    and pd: "chain (enc_dictionary E) (enc_code E) pd"
    and rd: "dec_bitStream D = reader_at s nb n p" and cov: "n \<le> 8 * int (length s)"
    and bits: "\<forall>i < nat (enc_codeBitsWidth E).
                 stream_bit s (p + i) = code_bits (enc_code E) (enc_codeBitsWidth E) ! i"
    and pn: "int (p + nat (enc_codeBitsWidth E)) \<le> n"
    and out: "dec_output D = (out, int (length out))" and cap: "int (length out + length pd) \<le> cap"
  shows "\<exists>D1. dec_step cap D = Inr (True, D1)
           \<and> dec_bitStream D1 = reader_at s nb n (p + nat (enc_codeBitsWidth E))
           \<and> dec_output D1 = (out @ pd, int (length (out @ pd)))
           \<and> dec_point D1 = enc_point E
           \<and> (\<forall>x wr. rel (enc_next x wr E) D1)"
proof -
  let ?dE = "enc_dictionary E" and ?dD = "dec_dictionary D" and ?w = "enc_codeBitsWidth E"
  let ?prev = "dec_prevCode D" and ?c = "enc_code E"
  have wfE: "dict_wf ?dE" and w: "9 \<le> ?w" "?w \<le> 12" and szw: "dsize ?dE \<le> 2 ^ nat ?w"
    and cr: "?c = Nil_code \<or> (0 \<le> ?c \<and> ?c < dsize ?dE)"
    using inv by (simp_all add: enc_inv_def)
  have clt: "?c < dsize ?dE" using cr c by (auto simp: Nil_code_eq)
  have wD: "dec_codeBitsWidth D = ?w" using r by (simp add: rel_def)
  define v where "v = take_bit (nat ?w) (word_of_int ?c :: 64 word)"
  define rd' where "rd' = reader_at s nb n (p + nat ?w)"
  have f1: "readBitsU64 (dec_bitStream D) (dec_codeBitsWidth D) = Inr (v, rd')"
    unfolding rd wD v_def rd'_def using cov pn bits by (rule read_code)
  have f2: "sint (ucast v :: 32 word) = ?c"
    unfolding v_def using c clt szw w(2) by (intro code_roundtrip) simp_all
  show ?thesis
  proof (cases "?prev = Nil_code")
    case True
    have c256: "?c < 256" using r True by (simp add: rel_def)
    have "chain ?dE ?c [word_of_int ?c]" using chain_root [OF wfE c c256] .
    then have pdeq: "pd = [word_of_int ?c]" using chain_det [OF pd] by simp
    have f3: "outputByte ?c cap (dec_output D) = (True, (out @ pd, int (length (out @ pd))))"
      using cap unfolding out pdeq by (simp add: outputByte_def)
    define D1 where "D1 = D\<lparr>dec_bitStream := rd', dec_output := (out @ pd, int (length (out @ pd))),
                             dec_firstByte := ?c, dec_prevCode := ?c\<rparr>"
    have st: "dec_step cap D = Inr (True, D1)"
      by (simp add: dec_step_def Let_def f1 f2 f3 True D1_def)
    have "rel (enc_next x wr E) D1" "dec_point D1 = enc_point E" for x wr
      using rel_next_fresh(1) [OF inv r True c, of D1 x wr] rel_next_fresh(2) [OF inv r True c, of D1]
      by (simp_all add: D1_def)
    then show ?thesis using st by (intro exI [of _ D1]) (simp add: D1_def rd'_def)
  next
    case False
    have pr: "0 \<le> ?prev" "?prev < dsize ?dD" and sz: "dsize ?dE = dsize ?dD + 1"
      and ag: "\<And>i. 0 \<le> i \<Longrightarrow> i < dsize ?dD \<Longrightarrow> entries ?dD i = entries ?dE i"
      and ex: "\<exists>bs. chain ?dE ?c bs \<and>
                entries ?dE (dsize ?dD) = Some \<lparr>entry_code = ?prev, entry_value = uint (hd bs)\<rparr>"
      using r False by (simp_all add: rel_def)
    from ex chain_det [OF pd]
    have en: "entries ?dE (dsize ?dD) = Some \<lparr>entry_code = ?prev, entry_value = uint (hd pd)\<rparr>" by auto
    have f3: "dec_sequence ?dD ?prev ?c cap (dec_output D) =
              Inr (True, (out @ pd, int (length (out @ pd))), uint (hd pd))"
      unfolding out using wfE c clt pd pr sz ag en cap by (rule decode_lag_output)
    have ne: "dsize ?dD \<noteq> 4096" using sz wfE by (simp add: dict_wf_def)
    have f4: "flush (dec_codeBitsWidth D) (snd (add ?prev (uint (hd pd)) ?dD)) =
         (resets ?w (dsize ?dE), dec_next_dict ?w ?prev (uint (hd pd)) ?dD, next_width ?w (dsize ?dE))"
      unfolding wD using dec_add_flush [OF w ne] sz by simp
    define D1 where "D1 = D\<lparr>dec_bitStream := rd', dec_output := (out @ pd, int (length (out @ pd))),
                             dec_firstByte := uint (hd pd),
                             dec_dictionary := dec_next_dict ?w ?prev (uint (hd pd)) ?dD,
                             dec_codeBitsWidth := next_width ?w (dsize ?dE),
                             dec_prevCode := (if resets ?w (dsize ?dE) then Nil_code else ?c)\<rparr>"
    have st: "dec_step cap D = Inr (True, D1)"
      by (simp add: dec_step_def Let_def f1 f2 f3 f4 False D1_def)
    have "rel (enc_next x wr E) D1" "dec_point D1 = enc_point E" for x wr
      using rel_next_lag(1) [OF inv r False c pd, of D1 x wr] rel_next_lag(2) [OF inv r False c pd, of D1]
      by (simp_all add: D1_def)
    then show ?thesis using st by (intro exI [of _ D1]) (simp add: D1_def rd'_def)
  qed
qed

lemma findIndex_total:
  assumes "enc_inv s bs"
  shows "\<exists>r. findIndex (enc_code s) v (enc_dictionary s) = Inr r"
proof (cases "enc_code s = Nil_code")
  case True
  then show ?thesis by (simp add: findIndex_Nil)
next
  case False
  then have "0 \<le> enc_code s" using assms by (auto simp: enc_inv_def)
  moreover have "dict_wf (enc_dictionary s)" using assms by (simp add: enc_inv_def)
  ultimately show ?thesis using findIndex_wf by blast
qed

lemma pending_after_emit:
  assumes "enc_inv (enc_next x wr E) bs"
  shows "pending (enc_next x wr E) [x]"
proof -
  have wf: "dict_wf (enc_dictionary (enc_next x wr E))" using assms by (simp add: enc_inv_def)
  have ux: "0 \<le> uint x" "uint x < 256" using uint_byte_range [of x] by simp_all
  have "enc_code (enc_next x wr E) = uint x" by (simp add: enc_next_def)
  then show ?thesis using chain_root [OF wf ux] ux(1) by (simp add: pending_def)
qed

lemma enc_step_cases:
  assumes inv: "enc_inv E bs" and pend: "pending E pd"
    and ok: "(\<exists>E1. enc_step x E = Inr E1) \<or> length bs + nat (enc_codeBitsWidth E) < 2 ^ 30"
  obtains (found) idx where "findIndex (enc_code E) (uint x) (enc_dictionary E) = Inr idx"
      "idx \<noteq> Nil_code" "enc_step x E = Inr (E\<lparr>enc_code := idx\<rparr>)"
      "enc_inv (E\<lparr>enc_code := idx\<rparr>) bs" "pending (E\<lparr>enc_code := idx\<rparr>) (pd @ [x])"
    | (emit) wr where "findIndex (enc_code E) (uint x) (enc_dictionary E) = Inr Nil_code"
      "0 \<le> enc_code E" "chain (enc_dictionary E) (enc_code E) pd"
      "enc_step x E = Inr (enc_next x wr E)"
      "enc_inv (enc_next x wr E) (bs @ code_bits (enc_code E) (enc_codeBitsWidth E))"
      "pending (enc_next x wr E) [x]"
proof -
  from findIndex_total [OF inv, of "uint x"]
  obtain idx where f: "findIndex (enc_code E) (uint x) (enc_dictionary E) = Inr idx" by blast
  show thesis
  proof (cases "idx = Nil_code")
    case False
    from enc_step_found [OF inv pend f False] f False show thesis by (intro found) auto
  next
    case True
    then have f': "findIndex (enc_code E) (uint x) (enc_dictionary E) = Inr Nil_code" using f by simp
    have room: "length bs + nat (enc_codeBitsWidth E) < 2 ^ 30"
      using ok enc_step_room [OF inv f'] by blast
    from enc_step_emit [OF inv f' room]
    obtain wr where c: "0 \<le> enc_code E" and st: "enc_step x E = Inr (enc_next x wr E)"
      and inv': "enc_inv (enc_next x wr E) (bs @ code_bits (enc_code E) (enc_codeBitsWidth E))"
      unfolding enc_next_def by blast
    have "enc_code E \<noteq> Nil_code" using c by (simp add: Nil_code_eq)
    then have "chain (enc_dictionary E) (enc_code E) pd" using pend by (simp add: pending_def)
    then show thesis using f' c st inv' pending_after_emit [OF inv'] by (intro emit) auto
  qed
qed

lemma enc_residual_ext:
  assumes inv: "enc_inv E bs"
    and ok: "(\<exists>wr. enc_residual E = Inr wr) \<or> length bs + nat (enc_codeBitsWidth E) < 2 ^ 30"
  shows "\<exists>wr. enc_residual E = Inr wr
           \<and> writer_inv wr (bs @ (if enc_code E = Nil_code then []
                                    else code_bits (enc_code E) (enc_codeBitsWidth E)))"
proof (cases "enc_code E = Nil_code")
  case True
  then show ?thesis using inv by (simp add: enc_residual_def enc_inv_def)
next
  case False
  have wi: "writer_inv (enc_bitStream E) bs" using inv by (simp add: enc_inv_def)
  have room: "length bs + nat (enc_codeBitsWidth E) < 2 ^ 30"
  proof (rule ccontr)
    assume nr: "\<not> length bs + nat (enc_codeBitsWidth E) < 2 ^ 30"
    then have "enc_residual E = Inl Overflow"
      using False
        appendBitsU64_inv [OF wi, where bitCount = "enc_codeBitsWidth E"
                                   and num = "word_of_int (enc_code E)"]
      by (simp add: enc_residual_def)
    then show False using ok nr by auto
  qed
  from appendBitsU64_inv [OF wi, where bitCount = "enc_codeBitsWidth E"
                                  and num = "word_of_int (enc_code E)"] room
  show ?thesis using False by (simp add: enc_residual_def code_bits_def)
qed

lemma length_code_bits: "length (code_bits c w) = nat w"
  by (simp add: code_bits_def)

text \<open>
  The run of the encoder from a state with the bits \<open>bs\<close> written: where it returns, and it
  does if 12 more bits for each byte to come and for the pending code stay below
  \<open>2 ^ 30\<close>, the writer holds \<open>bs\<close> and what the run added.
\<close>

lemma enc_run_Cons: "enc_step x E = Inr E1 \<Longrightarrow> enc_run (x # xs) E = enc_run xs E1"
  by (simp add: enc_run_def)

lemma enc_run_ext:
  assumes "enc_inv E bs" "pending E pd"
    and "(\<exists>wr. enc_run xs E = Inr wr) \<or> length bs + 12 * (length xs + 1) < 2 ^ 30"
  shows "\<exists>wr ext. enc_run xs E = Inr wr \<and> writer_inv wr (bs @ ext)
           \<and> length ext \<le> 12 * (length xs + (if enc_code E = Nil_code then 0 else 1))"
  using assms
proof (induction xs arbitrary: E bs pd)
  case Nil
  have "enc_codeBitsWidth E \<le> 12" using Nil(1) by (simp add: enc_inv_def)
  then have w: "nat (enc_codeBitsWidth E) \<le> 12" by simp
  have "(\<exists>wr. enc_residual E = Inr wr) \<or> length bs + nat (enc_codeBitsWidth E) < 2 ^ 30"
    using Nil(3) w by (auto simp: enc_run_def)
  from enc_residual_ext [OF Nil(1) this] obtain wr where wr: "enc_residual E = Inr wr"
    "writer_inv wr (bs @ (if enc_code E = Nil_code then []
                          else code_bits (enc_code E) (enc_codeBitsWidth E)))" by blast
  show ?case
  proof (cases "enc_code E = Nil_code")
    case True
    then show ?thesis using wr by (intro exI [of _ wr] exI [of _ "[]"]) (simp add: enc_run_def)
  next
    case False
    then show ?thesis using wr w
      by (intro exI [of _ wr] exI [of _ "code_bits (enc_code E) (enc_codeBitsWidth E)"])
         (simp add: enc_run_def length_code_bits)
  qed
next
  case (Cons x xs)
  have "enc_codeBitsWidth E \<le> 12" using Cons.prems(1) by (simp add: enc_inv_def)
  then have w: "nat (enc_codeBitsWidth E) \<le> 12" by simp
  have ok: "(\<exists>E1. enc_step x E = Inr E1) \<or> length bs + nat (enc_codeBitsWidth E) < 2 ^ 30"
  proof (cases "\<exists>wr. enc_run (x # xs) E = Inr wr")
    case True
    then show ?thesis by (auto simp: enc_run_def split: sum.splits)
  next
    case False
    then have "length bs + 12 * (length (x # xs) + 1) < 2 ^ 30" using Cons.prems(3) by blast
    then show ?thesis using w by simp
  qed
  from Cons.prems(1,2) ok show ?case
  proof (cases rule: enc_step_cases [where x = x])
    case (found idx)
    have ok1: "(\<exists>wr. enc_run xs (E\<lparr>enc_code := idx\<rparr>) = Inr wr)
               \<or> length bs + 12 * (length xs + 1) < 2 ^ 30"
      using Cons.prems(3) enc_run_Cons [OF found(3), of xs] by auto
    from Cons.IH [OF found(4,5) ok1]
    obtain wrF ext where e: "enc_run xs (E\<lparr>enc_code := idx\<rparr>) = Inr wrF" "writer_inv wrF (bs @ ext)"
      "length ext \<le> 12 * (length xs + (if enc_code (E\<lparr>enc_code := idx\<rparr>) = Nil_code then 0 else 1))"
      by blast
    moreover have "length ext \<le> 12 * (length (x # xs) + (if enc_code E = Nil_code then 0 else 1))"
      by (rule order_trans [OF e(3)]) simp
    ultimately show ?thesis using found(3) by (intro exI [of _ wrF] exI [of _ ext]) (simp add: enc_run_def)
  next
    case (emit wr)
    have ne: "enc_code E \<noteq> Nil_code" using emit(2) by (simp add: Nil_code_eq)
    have ok1: "(\<exists>wr'. enc_run xs (enc_next x wr E) = Inr wr')
               \<or> length (bs @ code_bits (enc_code E) (enc_codeBitsWidth E)) + 12 * (length xs + 1) < 2 ^ 30"
      using Cons.prems(3) enc_run_Cons [OF emit(4), of xs] w by (auto simp: length_code_bits)
    from Cons.IH [OF emit(5,6) ok1]
    obtain wrF ext where e: "enc_run xs (enc_next x wr E) = Inr wrF"
      "writer_inv wrF ((bs @ code_bits (enc_code E) (enc_codeBitsWidth E)) @ ext)"
      "length ext \<le> 12 * (length xs + (if enc_code (enc_next x wr E) = Nil_code then 0 else 1))"
      by auto
    have "length ext \<le> 12 * (length xs + 1)"
      by (rule order_trans [OF e(3)]) simp
    then have "length (code_bits (enc_code E) (enc_codeBitsWidth E) @ ext) \<le> 12 * (length (x # xs) + 1)"
      using w by (simp add: length_code_bits)
    then show ?thesis using e(1,2) emit(4) ne
      by (intro exI [of _ wrF] exI [of _ "code_bits (enc_code E) (enc_codeBitsWidth E) @ ext"])
         (simp add: enc_run_def)
  qed
qed

lemma rel_found:
  assumes inv: "enc_inv E bs" and pend: "pending E pd" and r: "rel E D"
    and f: "findIndex (enc_code E) (uint x) (enc_dictionary E) = Inr idx" "idx \<noteq> Nil_code"
    and inv': "enc_inv (E\<lparr>enc_code := idx\<rparr>) bs" and pend': "pending (E\<lparr>enc_code := idx\<rparr>) (pd @ [x])"
  shows "rel (E\<lparr>enc_code := idx\<rparr>) D"
proof (cases "dec_prevCode D = Nil_code")
  case True
  have sz: "dsize (enc_dictionary E) = 256" using r True by (simp add: rel_def)
  have "idx < 256"
  proof (cases "enc_code E = Nil_code")
    case True
    then show ?thesis using f(1) uint_byte_range [of x] by (simp add: findIndex_Nil)
  next
    case False
    then have "idx < dsize (enc_dictionary E)" using inv' f(2) by (simp add: enc_inv_def)
    then show ?thesis using sz by simp
  qed
  then show ?thesis using r True by (simp add: rel_def)
next
  case False
  have i0: "0 \<le> idx" using inv' f(2) by (auto simp: enc_inv_def)
  then have ch': "chain (enc_dictionary E) idx (pd @ [x])" using pend' by (simp add: pending_def Nil_code_eq)
  from r False obtain bs0 where c0: "0 \<le> enc_code E"
    and b0: "chain (enc_dictionary E) (enc_code E) bs0"
      "entries (enc_dictionary E) (dsize (dec_dictionary D)) =
       Some \<lparr>entry_code = dec_prevCode D, entry_value = uint (hd bs0)\<rparr>"
    by (auto simp: rel_def)
  have "chain (enc_dictionary E) (enc_code E) pd" using pend c0 by (simp add: pending_def Nil_code_eq)
  then have "bs0 = pd" using chain_det [OF b0(1)] by simp
  moreover have "pd \<noteq> []" using \<open>chain (enc_dictionary E) (enc_code E) pd\<close> by (rule chain_nonempty)
  ultimately have "hd (pd @ [x]) = hd bs0" by simp
  then have "\<exists>bs. chain (enc_dictionary E) idx bs \<and>
       entries (enc_dictionary E) (dsize (dec_dictionary D)) =
       Some \<lparr>entry_code = dec_prevCode D, entry_value = uint (hd bs)\<rparr>"
    using ch' b0(2) by (intro exI [of _ "pd @ [x]"]) simp
  then show ?thesis using r False i0 by (simp add: rel_def)
qed

lemma isEndOfStream_at: "isEndOfStream (reader_at s nb n p) = (n \<le> int p)"
  by (simp add: isEndOfStream_def reader_at_def)

lemma dec_trace_end: "isEndOfStream (dec_bitStream s) \<Longrightarrow> dec_trace cap s = Some (Inr [])"
  by (subst dec_trace.simps) simp

lemma dec_trace_step:
  assumes "\<not> isEndOfStream (dec_bitStream s)" "dec_step cap s = Inr (True, s1)"
    "dec_trace cap s1 = Some (Inr tr)"
  shows "dec_trace cap s = Some (Inr (s1 # tr))"
  using assms by (subst dec_trace.simps) simp

lemma writer_bits_at:
  assumes "writer_inv wr (bs @ cb @ ext)"
  shows "numBitsWritten wr \<le> 8 * int (length (stream wr))"
    and "int (length bs + length cb) \<le> numBitsWritten wr"
    and "\<forall>i < length cb. stream_bit (stream wr) (length bs + i) = cb ! i"
proof -
  have n: "numBitsWritten wr = int (length (bs @ cb @ ext))" using assms by (simp add: writer_inv_def)
  show cov: "numBitsWritten wr \<le> 8 * int (length (stream wr))"
    using writer_inv_covers(1) [OF assms] .
  show "int (length bs + length cb) \<le> numBitsWritten wr" using n by simp
  have sb: "stream_bit (stream wr) j = (j < length (bs @ cb @ ext) \<and> (bs @ cb @ ext) ! j)"
    if "j < 8 * length (stream wr)" for j
    using assms that by (simp add: writer_inv_def)
  show "\<forall>i < length cb. stream_bit (stream wr) (length bs + i) = cb ! i"
  proof (intro allI impI)
    fix i assume i: "i < length cb"
    then have "length bs + i < length (bs @ cb @ ext)" by simp
    moreover from this have "length bs + i < 8 * length (stream wr)" using cov n by linarith
    ultimately have "stream_bit (stream wr) (length bs + i) = (bs @ cb @ ext) ! (length bs + i)"
      using sb by simp
    then show "stream_bit (stream wr) (length bs + i) = cb ! i" using i by (simp add: nth_append)
  qed
qed

lemma decode_follows:
  assumes "enc_inv E bsE" "pending E pd" "rel E D"
    and "enc_run xs E = Inr wrF"
    and "dec_bitStream D = reader_at (stream wrF) nb (numBitsWritten wrF) (length bsE)"
    and "dec_output D = (out, int (length out))"
    and "int (length out + length pd + length xs) \<le> cap"
  shows "\<exists>tr. dec_trace cap D = Some (Inr tr)
          \<and> dec_output (last (D # tr)) = (out @ pd @ xs, int (length (out @ pd @ xs)))
          \<and> map dec_point (butlast tr) = enc_trajectory xs E
          \<and> (enc_code E \<noteq> Nil_code \<longrightarrow> tr \<noteq> [])
          \<and> (\<forall>st \<in> set tr. dict_wf (dec_dictionary st))
          \<and> isEndOfStream (dec_bitStream (last (D # tr)))"
  using assms
proof (induction xs arbitrary: E D bsE pd out)
  case Nil
  note inv = Nil.prems(1) and pend = Nil.prems(2) and r = Nil.prems(3) and run = Nil.prems(4)
    and rd = Nil.prems(5) and out = Nil.prems(6) and cap = Nil.prems(7)
  have "(\<exists>wr. enc_residual E = Inr wr) \<or> length bsE + nat (enc_codeBitsWidth E) < 2 ^ 30"
    using run by (auto simp: enc_run_def)
  from enc_residual_ext [OF inv this] run
  have wi: "writer_inv wrF (bsE @ (if enc_code E = Nil_code then []
                                    else code_bits (enc_code E) (enc_codeBitsWidth E)))"
    by (auto simp: enc_run_def)
  show ?case
  proof (cases "enc_code E = Nil_code")
    case True
    then have "numBitsWritten wrF = int (length bsE)" using wi by (simp add: writer_inv_def)
    then have eos: "isEndOfStream (dec_bitStream D)" by (simp add: rd isEndOfStream_at)
    have "pd = []" using pend True by (auto simp: pending_def Nil_code_eq)
    then show ?thesis using dec_trace_end [OF eos] eos out True by simp
  next
    case False
    let ?w = "enc_codeBitsWidth E" and ?c = "enc_code E"
    have c: "0 \<le> ?c" and ch: "chain (enc_dictionary E) ?c pd"
      using pend False by (auto simp: pending_def)
    have w: "9 \<le> ?w" using inv by (simp add: enc_inv_def)
    have wi': "writer_inv wrF (bsE @ code_bits ?c ?w @ [])" using wi False by simp
    note wb = writer_bits_at [OF wi']
    have n: "numBitsWritten wrF = int (length bsE + nat ?w)"
      using wi' by (simp add: writer_inv_def length_code_bits)
    from dec_step_code [OF inv r c ch rd wb(1) _ _ out, of cap] wb(2,3) cap
    obtain D1 where D1: "dec_step cap D = Inr (True, D1)"
      "dec_bitStream D1 = reader_at (stream wrF) nb (numBitsWritten wrF) (length bsE + nat ?w)"
      "dec_output D1 = (out @ pd, int (length (out @ pd)))"
      "\<forall>x wr. rel (enc_next x wr E) D1"
      by (auto simp: length_code_bits)
    have ne: "\<not> isEndOfStream (dec_bitStream D)" using n w by (simp add: rd isEndOfStream_at)
    have eos1: "isEndOfStream (dec_bitStream D1)" using n by (simp add: D1(2) isEndOfStream_at)
    have tr: "dec_trace cap D = Some (Inr [D1])"
      using dec_trace_step [OF ne D1(1) dec_trace_end [OF eos1]] .
    have "dict_wf (dec_dictionary D1)" using D1(4) by (auto simp: rel_def)
    then show ?thesis using tr D1(3) eos1 by simp
  qed
next
  case (Cons x xs)
  note inv = Cons.prems(1) and pend = Cons.prems(2) and r = Cons.prems(3) and run = Cons.prems(4)
    and rd = Cons.prems(5) and out = Cons.prems(6) and cap = Cons.prems(7)
  have ok: "(\<exists>E1. enc_step x E = Inr E1) \<or> length bsE + nat (enc_codeBitsWidth E) < 2 ^ 30"
    using run by (auto simp: enc_run_def split: sum.splits)
  from inv pend ok show ?case
  proof (cases rule: enc_step_cases [where x = x])
    case (found idx)
    let ?E1 = "E\<lparr>enc_code := idx\<rparr>"
    have r1: "rel ?E1 D" using rel_found [OF inv pend r found(1,2,4,5)] .
    have run1: "enc_run xs ?E1 = Inr wrF" using run enc_run_Cons [OF found(3)] by simp
    have cap1: "int (length out + length (pd @ [x]) + length xs) \<le> cap" using cap by simp
    from Cons.IH [OF found(4,5) r1 run1 rd out cap1]
    obtain tr where tr: "dec_trace cap D = Some (Inr tr)"
      "dec_output (last (D # tr)) = (out @ (pd @ [x]) @ xs, int (length (out @ (pd @ [x]) @ xs)))"
      "map dec_point (butlast tr) = enc_trajectory xs ?E1"
      "enc_code ?E1 \<noteq> Nil_code \<longrightarrow> tr \<noteq> []"
      "\<forall>st \<in> set tr. dict_wf (dec_dictionary st)"
      "isEndOfStream (dec_bitStream (last (D # tr)))"
      by blast
    have "enc_trajectory (x # xs) E = enc_trajectory xs ?E1"
      using found(1,2,3) by simp
    then show ?thesis using tr found(2) by (intro exI [of _ tr]) simp
  next
    case (emit wr)
    let ?w = "enc_codeBitsWidth E" and ?c = "enc_code E" and ?E1 = "enc_next x wr E"
    have w: "9 \<le> ?w" using inv by (simp add: enc_inv_def)
    have run1: "enc_run xs ?E1 = Inr wrF" using run enc_run_Cons [OF emit(4)] by simp
    have "(\<exists>wr. enc_run xs ?E1 = Inr wr)
          \<or> length (bsE @ code_bits ?c ?w) + 12 * (length xs + 1) < 2 ^ 30"
      using run1 by blast
    from enc_run_ext [OF emit(5,6) this] run1
    obtain ext where wi: "writer_inv wrF (bsE @ code_bits ?c ?w @ ext)" by auto
    note wb = writer_bits_at [OF wi]
    have cap0: "int (length out + length pd) \<le> cap" using cap by simp
    from dec_step_code [OF inv r emit(2,3) rd wb(1) _ _ out cap0] wb(2,3)
    obtain D1 where D1: "dec_step cap D = Inr (True, D1)"
      "dec_bitStream D1 = reader_at (stream wrF) nb (numBitsWritten wrF) (length bsE + nat ?w)"
      "dec_output D1 = (out @ pd, int (length (out @ pd)))"
      "dec_point D1 = enc_point E"
      "\<forall>x wr. rel (enc_next x wr E) D1"
      by (auto simp: length_code_bits)
    have ne: "\<not> isEndOfStream (dec_bitStream D)"
      using wb(2) w by (simp add: rd isEndOfStream_at length_code_bits)
    have rd1: "dec_bitStream D1 =
               reader_at (stream wrF) nb (numBitsWritten wrF) (length (bsE @ code_bits ?c ?w))"
      using D1(2) by (simp add: length_code_bits)
    have cap1: "int (length (out @ pd) + length [x] + length xs) \<le> cap" using cap by simp
    have r1: "rel ?E1 D1" using D1(5) by blast
    from Cons.IH [OF emit(5,6) r1 run1 rd1 D1(3) cap1]
    obtain tr where tr: "dec_trace cap D1 = Some (Inr tr)"
      "dec_output (last (D1 # tr)) = ((out @ pd) @ [x] @ xs, int (length ((out @ pd) @ [x] @ xs)))"
      "map dec_point (butlast tr) = enc_trajectory xs ?E1"
      "enc_code ?E1 \<noteq> Nil_code \<longrightarrow> tr \<noteq> []"
      "\<forall>st \<in> set tr. dict_wf (dec_dictionary st)"
      "isEndOfStream (dec_bitStream (last (D1 # tr)))"
      by blast
    have "uint x \<noteq> - 1" using uint_ge_0 [of x] by linarith
    then have "enc_code ?E1 \<noteq> Nil_code" by (simp add: enc_next_def Nil_code_eq)
    then have tne: "tr \<noteq> []" using tr(4) by simp
    have tj: "enc_trajectory (x # xs) E = enc_point E # enc_trajectory xs ?E1"
      using emit(1,4) by simp
    have wf1: "dict_wf (dec_dictionary D1)" using r1 by (simp add: rel_def)
    have "dec_trace cap D = Some (Inr (D1 # tr))" using dec_trace_step [OF ne D1(1) tr(1)] .
    then show ?thesis using tr tne tj D1(4) wf1 by (intro exI [of _ "D1 # tr"]) simp
  qed
qed

lemma dict_wf_init: "dict_wf Dictionary_init"
  by (simp add: dict_wf_def Dictionary_init_def FirstCode_eq Nil_code_eq)

lemma enc_inv_init: "enc_inv (enc_init writer0) []"
  using dict_wf_init writer0_inv
  by (simp add: enc_inv_def enc_init_def StartBits_def Dictionary_init_def FirstCode_eq)

lemma pending_init: "pending (enc_init wr) []"
  by (simp add: pending_def enc_init_def)

lemma rel_init: "rel (enc_init wr) (dec_init buf nb n)"
  using dict_wf_init
  by (simp add: rel_def enc_init_def dec_init_def Dictionary_init_def FirstCode_eq Nil_code_eq)

lemma dec_loop_of_trace:
  "dec_trace cap s = Some (Inr tr) \<Longrightarrow> dec_loop cap s = Some (Inr (last (s # tr)))"
proof (induction tr arbitrary: s)
  case Nil
  then show ?case
    by (subst dec_loop.simps, subst (asm) dec_trace.simps)
       (auto split: if_splits sum.splits prod.splits Option.bind_splits)
next
  case (Cons a tr)
  have ne: "\<not> isEndOfStream (dec_bitStream s)"
    using Cons.prems by (subst (asm) dec_trace.simps) (auto split: if_splits)
  obtain cont s' where st: "dec_step cap s = Inr (cont, s')"
    using Cons.prems ne by (subst (asm) dec_trace.simps) (auto split: sum.splits)
  show ?case
  proof (cases cont)
    case True
    then have "a = s'" "dec_trace cap s' = Some (Inr tr)"
      using Cons.prems ne st
      by (subst (asm) dec_trace.simps; auto split: sum.splits Option.bind_splits)+
    then show ?thesis using Cons.IH [of s'] ne st True by (subst dec_loop.simps) simp
  next
    case False
    then have "a = s'" "tr = []"
      using Cons.prems ne st by (subst (asm) dec_trace.simps; simp)+
    then show ?thesis using ne st False by (subst dec_loop.simps) simp
  qed
qed

subsection \<open>Round trip\<close>

lemma sint_word_of_int_32:
  assumes "0 \<le> b" "b < 2 ^ 31"
  shows "sint (word_of_int b :: 32 word) = b"
  using assms by (simp add: sint_sbintrunc' signed_take_bit_int_eq_self)

lemma sint_word_of_nat_32:
  assumes "k < 2 ^ 31"
  shows "sint (word_of_nat k :: 32 word) = int k" "unat (word_of_nat k :: 32 word) = k"
proof -
  have "int k < 2 ^ 31" using assms by (metis of_nat_less_iff of_nat_numeral of_nat_power)
  then have "sint (word_of_int (int k) :: 32 word) = int k" by (intro sint_word_of_int_32) simp_all
  then show "sint (word_of_nat k :: 32 word) = int k" by simp
  have "k < 2 ^ 32" using assms by simp
  then show "unat (word_of_nat k :: 32 word) = k" by (simp add: unat_of_nat take_bit_nat_eq_self)
qed

text \<open>
  \<open>lzwEncode\<close> returns where the run of the encoder from the default writer does, for an input
  whose size is a \<open>uint32_t\<close>.
\<close>

lemma lzwEncode_run:
  "lzwEncode S = Inr (buf, nb, n) \<longleftrightarrow>
     int (length S) < 4294967296
     \<and> (\<exists>wr. enc_run S (enc_init writer0) = Inr wr \<and> buf = stream wr
            \<and> nb = word_of_int (getByteCount wr) \<and> n = word_of_int (numBitsWritten wr))"
  by (auto simp: lzwEncode_def BitStreamWriter_default_eq release_def split: sum.splits)

text \<open>
  A stream that the encoder returns has fewer than \<open>2 ^ 30\<close> bits, at most 12 for each input
  byte, and its buffer covers them.
\<close>

lemma lzwEncode_stream:
  assumes "lzwEncode S = Inr (buf, nb, n)"
  shows "\<exists>wr bits. enc_run S (enc_init writer0) = Inr wr \<and> writer_inv wr bits \<and> buf = stream wr
           \<and> numBitsWritten wr = int (length bits) \<and> sint n = int (length bits)
           \<and> length bits \<le> 12 * length S \<and> length bits < 2 ^ 30
           \<and> sint n \<le> 8 * int (length buf)"
proof -
  from assms obtain wr where wr: "enc_run S (enc_init writer0) = Inr wr" "buf = stream wr"
    "n = word_of_int (numBitsWritten wr)" by (auto simp: lzwEncode_run)
  have "(\<exists>wr. enc_run S (enc_init writer0) = Inr wr)
        \<or> length ([] :: bool list) + 12 * (length S + 1) < 2 ^ 30" using wr(1) by blast
  from enc_run_ext [OF enc_inv_init pending_init this] wr(1)
  obtain ext where e: "writer_inv wr ([] @ ext)"
    "length ext \<le> 12 * (length S + (if enc_code (enc_init writer0) = Nil_code then 0 else 1))"
    by auto
  have "enc_code (enc_init writer0) = Nil_code" by (simp add: enc_init_def)
  then have le: "length ext \<le> 12 * length S" using e(2) by simp
  have inv: "writer_inv wr ext" using e(1) by simp
  have nbw: "numBitsWritten wr = int (length ext)" using inv by (simp add: writer_inv_def)
  have lt: "length ext < 2 ^ 30" using writer_inv_room [OF inv] .
  then have "int (length ext) < 2 ^ 31" by simp
  then have sn: "sint n = int (length ext)"
    unfolding wr(3) nbw by (intro sint_word_of_int_32) simp_all
  have "numBitsWritten wr \<le> 8 * int (length (stream wr))" using writer_inv_covers(1) [OF inv] .
  then show ?thesis using wr(1,2) inv nbw sn le lt by (intro exI [of _ wr] exI [of _ ext]) simp
qed

text \<open>The encoder returns for every input of up to 89 million bytes.\<close>

lemma lzwEncode_total:
  assumes "12 * (length S + 1) < 2 ^ 30"
  shows "\<exists>buf nb n. lzwEncode S = Inr (buf, nb, n)"
proof -
  have "(\<exists>wr. enc_run S (enc_init writer0) = Inr wr)
        \<or> length ([] :: bool list) + 12 * (length S + 1) < 2 ^ 30" using assms by simp
  from enc_run_ext [OF enc_inv_init pending_init this]
  obtain wr where "enc_run S (enc_init writer0) = Inr wr" by blast
  moreover have "int (length S) < 4294967296" using assms by simp
  ultimately show ?thesis by (auto simp: lzwEncode_run)
qed

text \<open>
  The decoder, given enough room, goes through the whole stream of the encoder: its trace,
  the output, the trajectory and the dictionaries it passes through.
\<close>

lemma decode_encoded:
  assumes "lzwEncode S = Inr (buf, nb, n)" "int (length S) \<le> cap"
  shows "\<exists>tr. dec_trace cap (dec_init buf nb n) = Some (Inr tr)
          \<and> dec_output (last (dec_init buf nb n # tr)) = (S, int (length S))
          \<and> map dec_point (butlast tr) = enc_trajectory S (enc_init writer0)
          \<and> (\<forall>st \<in> set (dec_init buf nb n # tr). dict_wf (dec_dictionary st))
          \<and> isEndOfStream (dec_bitStream (last (dec_init buf nb n # tr)))"
proof -
  from lzwEncode_stream [OF assms(1)]
  obtain wr and bits :: "bool list" where wr: "enc_run S (enc_init writer0) = Inr wr"
    "buf = stream wr" "numBitsWritten wr = int (length bits)" "sint n = int (length bits)"
    by blast
  have sn: "sint n = numBitsWritten wr" using wr(3,4) by simp
  have rd: "dec_bitStream (dec_init buf nb n) =
            reader_at (stream wr) (sint nb) (numBitsWritten wr) (length ([] :: bool list))"
    by (simp add: dec_init_def BitStreamReader_init_at sn wr(2))
  have out: "dec_output (dec_init buf nb n) = ([], int (length ([] :: byte list)))"
    by (simp add: dec_init_def)
  have cap: "int (length ([] :: byte list) + length ([] :: byte list) + length S) \<le> cap"
    using assms(2) by simp
  from decode_follows [OF enc_inv_init pending_init rel_init wr(1) rd out cap]
  obtain tr where tr: "dec_trace cap (dec_init buf nb n) = Some (Inr tr)"
    "dec_output (last (dec_init buf nb n # tr)) = ([] @ [] @ S, int (length ([] @ [] @ S)))"
    "map dec_point (butlast tr) = enc_trajectory S (enc_init writer0)"
    "\<forall>st \<in> set tr. dict_wf (dec_dictionary st)"
    "isEndOfStream (dec_bitStream (last (dec_init buf nb n # tr)))"
    by blast
  have "dict_wf (dec_dictionary (dec_init buf nb n))" using dict_wf_init by (simp add: dec_init_def)
  then show ?thesis using tr by (intro exI [of _ tr]) simp
qed

text \<open>
  The round trip within the range of \<open>int\<close>. For every byte sequence \<open>S\<close> of fewer than
  \<open>2 ^ 31\<close> bytes for which \<open>lzwEncode\<close>
  returns a stream, \<open>lzwDecode\<close> on the buffer with the returned byte and bit counts, and
  with the length of \<open>S\<close> as expected size, returns a buffer that holds exactly \<open>S\<close>.
\<close>

theorem C1_round_trip:
  assumes "lzwEncode S = Inr (buf, nb, n)" "length S < 2 ^ 31"
  shows "lzwDecode buf nb n (word_of_nat (length S)) = Some (Inr (map Some S))"
proof -
  let ?N = "word_of_nat (length S) :: 32 word"
  have N: "sint ?N = int (length S)" "unat ?N = length S"
    using sint_word_of_nat_32 [OF assms(2)] by simp_all
  from decode_encoded [OF assms(1), of "sint ?N"] N(1)
  obtain tr where e: "dec_trace (sint ?N) (dec_init buf nb n) = Some (Inr tr)"
    "dec_output (last (dec_init buf nb n # tr)) = (S, int (length S))"
    by auto
  have "dec_loop (sint ?N) (dec_init buf nb n) = Some (Inr (last (dec_init buf nb n # tr)))"
    using dec_loop_of_trace [OF e(1)] .
  then show ?thesis using e(2) N(2) by (simp add: lzwDecode_def)
qed

theorem C1_round_trip_witness:
  "\<exists>buf nb n. lzwEncode [84, 79, 66, 69, 79, 82, 78, 79, 84] = Inr (buf, nb, n)
           \<and> length [84 :: byte, 79, 66, 69, 79, 82, 78, 79, 84] < 2 ^ 31
           \<and> lzwDecode buf nb n (word_of_nat (length [84 :: byte, 79, 66, 69, 79, 82, 78, 79, 84])) =
               Some (Inr (map Some [84, 79, 66, 69, 79, 82, 78, 79, 84]))"
proof -
  have "12 * (length [84 :: byte, 79, 66, 69, 79, 82, 78, 79, 84] + 1) < 2 ^ 30" by simp
  from lzwEncode_total [OF this]
  obtain buf nb n where e: "lzwEncode [84, 79, 66, 69, 79, 82, 78, 79, 84] = Inr (buf, nb, n)"
    by blast
  have l: "length [84 :: byte, 79, 66, 69, 79, 82, 78, 79, 84] < 2 ^ 31" by simp
  from C1_round_trip [OF e l] e l show ?thesis by blast
qed

text \<open>
  With an expected size whose 32-bit pattern is negative as an \<open>int\<close>, the decoder stops at
  the first code and leaves every cell of the buffer unwritten.
\<close>

lemma lzwDecode_negative_size:
  assumes "sint N < 0" "lzwDecode buf nb n N = Some (Inr r)"
  shows "r = replicate (unat N) None"
proof -
  let ?s = "dec_init buf nb n"
  have o: "dec_output ?s = ([], 0)" "dec_prevCode ?s = Nil_code" by (simp_all add: dec_init_def)
  have ob: "outputByte c (sint N) ([], 0) = (False, ([], 0))" for c
    using assms(1) by (simp add: outputByte_def)
  have "\<exists>s'. dec_loop (sint N) ?s = Some (Inr s') \<and> dec_output s' = ([], 0)"
  proof (cases "isEndOfStream (dec_bitStream ?s)")
    case True
    then show ?thesis using o by (subst dec_loop.simps) simp
  next
    case False
    from assms(2) obtain s' where s': "dec_loop (sint N) ?s = Some (Inr s')"
      by (auto simp: lzwDecode_def split: option.splits sum.splits)
    then have "dec_output s' = ([], 0)"
      using False o ob
      by (subst (asm) dec_loop.simps)
         (auto simp: dec_step_def Let_def split: sum.splits prod.splits if_splits)
    then show ?thesis using s' by blast
  qed
  then show ?thesis using assms(2) by (auto simp: lzwDecode_def)
qed

text \<open>
  C1. The round trip fails on the input of \<open>2 ^ 31\<close> zero bytes: \<open>lzwDecode\<close> takes the
  expected size as \<open>uint32_t\<close> and hands it to \<open>outputByte\<close> as an \<open>int\<close>, here \<open>- 2 ^ 31\<close>, so
  that whatever stream the encoder returns, the decoder does not return the input.
\<close>

theorem C1_failing_input:
  "\<not> (\<exists>buf nb n. lzwEncode (replicate 2147483648 0) = Inr (buf, nb, n)
        \<and> lzwDecode buf nb n (word_of_nat (length (replicate 2147483648 (0 :: byte)))) =
            Some (Inr (map Some (replicate 2147483648 0))))"
proof
  assume "\<exists>buf nb n. lzwEncode (replicate 2147483648 0) = Inr (buf, nb, n)
        \<and> lzwDecode buf nb n (word_of_nat (length (replicate 2147483648 (0 :: byte)))) =
            Some (Inr (map Some (replicate 2147483648 0)))"
  then obtain buf nb n where
    d: "lzwDecode buf nb n (2147483648 :: 32 word) = Some (Inr (map Some (replicate 2147483648 0)))"
    by auto
  have "sint (2147483648 :: 32 word) < 0" by simp
  from lzwDecode_negative_size [OF this d]
  have "map Some (replicate 2147483648 (0 :: byte)) = replicate (unat (2147483648 :: 32 word)) None" .
  then have "Some (0 :: byte) = None"
    by (simp only: map_replicate replicate_eq_replicate) simp
  then show False by simp
qed

subsection \<open>The decoder and the capacity of the output\<close>

lemma walk_nonempty: "walk d c acc = Inr sq \<Longrightarrow> sq \<noteq> []"
proof (induction d c acc rule: walk.induct)
  case (1 d code sequence)
  then show ?case
    by (subst (asm) (2) walk.simps) (auto simp: Let_def split: if_splits option.splits)
qed

text \<open>
  What a pass writes depends on the capacity only through how many of its bytes fit: the
  pass has a list of bytes that it writes in order as long as there is room.
\<close>

lemma outputByte_eq:
  "outputByte c cap (out, int (length out)) =
     (int (length out + length [word_of_int c :: byte]) \<le> cap,
      (out @ take (nat (cap - int (length out))) [word_of_int c],
       int (length (out @ take (nat (cap - int (length out))) [word_of_int c :: byte]))))"
  by (auto simp: outputByte_def)

lemma output_cells_eq':
  assumes "bs \<noteq> []"
  shows "output_cells bs cap (out, int (length out)) =
     (int (length out + length bs) \<le> cap,
      (out @ take (nat (cap - int (length out))) bs,
       int (length (out @ take (nat (cap - int (length out))) bs))))"
  unfolding output_cells_eq using assms by (simp add: min_def) linarith

lemma dec_sequence_bytes:
  assumes "dec_sequence d p c cap0 (out0, k0) = Inr r0"
  shows "\<exists>bs fb. bs \<noteq> [] \<and>
           (\<forall>cap out. dec_sequence d p c cap (out, int (length out)) =
              Inr (int (length out + length bs) \<le> cap,
                   (out @ take (nat (cap - int (length out))) bs,
                    int (length (out @ take (nat (cap - int (length out))) bs))), fb))"
proof (cases "c \<ge> dsize d")
  case False
  then obtain sq where sq: "walk d c [] = Inr sq"
    using assms by (auto simp: dec_sequence_def outputSequence_def split: sum.splits)
  have ne: "rev sq \<noteq> []" using walk_nonempty [OF sq] by simp
  show ?thesis
    using False sq ne output_cells_eq' [OF ne]
    by (intro exI [of _ "rev sq"] exI [of _ "uint (last sq)"])
       (simp add: dec_sequence_def outputSequence_def)
next
  case True
  then obtain sq where sq: "walk d p [] = Inr sq"
    using assms by (auto simp: dec_sequence_def outputSequence_def split: sum.splits)
  have ne: "rev sq \<noteq> []" using walk_nonempty [OF sq] by simp
  define fb where "fb = uint (last sq)"
  define b :: byte where "b = word_of_int fb"
  have "dec_sequence d p c cap (out, int (length out)) =
              Inr (int (length out + length (rev sq @ [b])) \<le> cap,
                   (out @ take (nat (cap - int (length out))) (rev sq @ [b]),
                    int (length (out @ take (nat (cap - int (length out))) (rev sq @ [b])))), fb)"
    for cap out
  proof (cases "int (length out + length (rev sq)) \<le> cap")
    case fits: True
    then have t: "take (nat (cap - int (length out))) (rev sq) = rev sq" by simp
    have "nat (cap - int (length out)) - length (rev sq) = nat (cap - int (length (out @ rev sq)))"
      by simp
    then have t2: "out @ take (nat (cap - int (length out))) (rev sq @ [b]) =
              (out @ rev sq) @ take (nat (cap - int (length (out @ rev sq)))) [b]"
      using t by (simp only: take_append append_assoc)
    have os: "outputSequence d p cap (out, int (length out)) =
                Inr (True, (out @ rev sq, int (length (out @ rev sq))), fb)"
      using sq fits output_cells_eq' [OF ne, of cap out]
      by (simp add: outputSequence_def fb_def t)
    have le: "int (length (out @ rev sq) + length [b]) \<le> cap \<longleftrightarrow>
              int (length out + length (rev sq @ [b])) \<le> cap" by simp
    show ?thesis
      unfolding dec_sequence_def os t2 using True
      by (simp only: outputByte_eq [of fb cap "out @ rev sq", folded b_def] le if_True
            sum.case prod.case bool.case)
  next
    case nofit: False
    then have t: "take (nat (cap - int (length out))) (rev sq @ [b]) =
                  take (nat (cap - int (length out))) (rev sq)" by simp
    show ?thesis
      using True sq nofit output_cells_eq' [OF ne, of cap out]
      by (simp add: dec_sequence_def outputSequence_def fb_def [symmetric] t)
  qed
  then show ?thesis by (intro exI [of _ "rev sq @ [b]"] exI [of _ fb]) simp
qed

lemma dec_step_bytes:
  assumes "dec_step cap0 s = Inr r0" "dec_output s = (out, int (length out))"
  shows "\<exists>bs t u. bs \<noteq> [] \<and> dec_output t = (out @ bs, int (length (out @ bs)))
           \<and> dec_dictionary u = dec_dictionary s \<and> dec_bitStream u = dec_bitStream t
           \<and> (\<forall>cap. dec_step cap s =
                 Inr (if int (length out + length bs) \<le> cap then (True, t)
                      else (False, u\<lparr>dec_output :=
                              (out @ take (nat (cap - int (length out))) bs,
                               int (length (out @ take (nat (cap - int (length out))) bs)))\<rparr>)))"
proof -
  obtain v rd where rd: "readBitsU64 (dec_bitStream s) (dec_codeBitsWidth s) = Inr (v, rd)"
    using assms(1) by (auto simp: dec_step_def split: sum.splits)
  define code where "code = sint (ucast v :: 32 word)"
  define s1 where "s1 = s\<lparr>dec_bitStream := rd\<rparr>"
  show ?thesis
  proof (cases "dec_prevCode s = Nil_code")
    case True
    define t where "t = s1\<lparr>dec_output := (out @ [word_of_int code], int (length (out @ [word_of_int code :: byte]))),
                           dec_firstByte := code, dec_prevCode := code\<rparr>"
    have "dec_step cap s =
            Inr (if int (length out + length [word_of_int code :: byte]) \<le> cap then (True, t)
                 else (False, s1\<lparr>dec_output :=
                         (out @ take (nat (cap - int (length out))) [word_of_int code],
                          int (length (out @ take (nat (cap - int (length out))) [word_of_int code :: byte])))\<rparr>))"
      for cap
    proof -
      have "s1\<lparr>dec_output := (out, int (length out))\<rparr> = s1" using assms(2) by (simp add: s1_def)
      then show ?thesis
        using True rd assms(2)
        by (simp add: dec_step_def code_def [symmetric] s1_def [symmetric] outputByte_eq t_def)
    qed
    then show ?thesis
      by (intro exI [of _ "[word_of_int code]"] exI [of _ t] exI [of _ s1]) (simp add: t_def s1_def)
  next
    case False
    have "\<exists>r. dec_sequence (dec_dictionary s) (dec_prevCode s) code cap0 (out, int (length out)) = Inr r"
      using assms False rd
      by (auto simp: dec_step_def code_def [symmetric] Let_def split: sum.splits)
    then obtain r where "dec_sequence (dec_dictionary s) (dec_prevCode s) code cap0 (out, int (length out)) = Inr r"
      by blast
    from dec_sequence_bytes [OF this]
    obtain bs fb where bs: "bs \<noteq> []"
      "\<And>cap out. dec_sequence (dec_dictionary s) (dec_prevCode s) code cap (out, int (length out)) =
              Inr (int (length out + length bs) \<le> cap,
                   (out @ take (nat (cap - int (length out))) bs,
                    int (length (out @ take (nat (cap - int (length out))) bs))), fb)"
      by blast
    obtain reset d w where fl:
      "flush (dec_codeBitsWidth s) (snd (add (dec_prevCode s) fb (dec_dictionary s))) = (reset, d, w)"
      by (cases "flush (dec_codeBitsWidth s) (snd (add (dec_prevCode s) fb (dec_dictionary s)))") auto
    define t where "t = s1\<lparr>dec_output := (out @ bs, int (length (out @ bs))), dec_firstByte := fb,
                           dec_dictionary := d, dec_codeBitsWidth := w,
                           dec_prevCode := (if reset then Nil_code else code)\<rparr>"
    define u where "u = s1\<lparr>dec_firstByte := fb\<rparr>"
    have "dec_step cap s =
            Inr (if int (length out + length bs) \<le> cap then (True, t)
                 else (False, u\<lparr>dec_output :=
                         (out @ take (nat (cap - int (length out))) bs,
                          int (length (out @ take (nat (cap - int (length out))) bs)))\<rparr>))"
      for cap
    proof (cases "int (length out + length bs) \<le> cap")
      case fits: True
      then have "take (nat (cap - int (length out))) bs = bs" by simp
      then show ?thesis
        using False rd assms(2) fits fl
        by (simp add: dec_step_def code_def [symmetric] s1_def [symmetric] bs(2) t_def)
    next
      case nofit: False
      then show ?thesis
        using False rd assms(2) fl
        by (simp add: dec_step_def code_def [symmetric] s1_def [symmetric] bs(2) u_def)
    qed
    then show ?thesis
      using bs(1) by (intro exI [of _ bs] exI [of _ t] exI [of _ u]) (simp add: t_def u_def s1_def)
  qed
qed

lemma take_fit:
  assumes "\<not> int (length out + length bs) \<le> cap" "int (length out) \<le> cap"
  shows "take (nat cap) (out @ bs @ rest) = out @ take (nat (cap - int (length out))) bs"
proof -
  have "nat cap - length out = nat (cap - int (length out))" by simp
  moreover have "nat (cap - int (length out)) \<le> length bs" using assms by simp
  ultimately show ?thesis using assms(2) by (simp add: take_append)
qed

lemma dec_loop_cap:
  assumes "dec_loop cap2 s = Some r"
  shows "\<forall>f2 out. r = Inr f2 \<longrightarrow> dec_output s = (out, int (length out)) \<longrightarrow>
           (\<exists>outf. dec_output f2 = (out @ outf, int (length (out @ outf)))
              \<and> (\<forall>cap1. int (length out) \<le> cap1 \<and> cap1 \<le> cap2 \<longrightarrow>
                   (\<exists>f1. dec_loop cap1 s = Some (Inr f1)
                       \<and> dec_output f1 = (take (nat cap1) (out @ outf),
                                           int (length (take (nat cap1) (out @ outf)))))))"
  using assms
proof (induct cap2 s r rule: dec_loop.raw_induct [rotated 1, consumes 1])
  case (1 loop cap2 s r)
  show ?case
  proof (intro allI impI)
    fix f2 out
    assume r: "r = Inr f2" and out: "dec_output s = (out, int (length out))"
    show "\<exists>outf. dec_output f2 = (out @ outf, int (length (out @ outf)))
              \<and> (\<forall>cap1. int (length out) \<le> cap1 \<and> cap1 \<le> cap2 \<longrightarrow>
                   (\<exists>f1. dec_loop cap1 s = Some (Inr f1)
                       \<and> dec_output f1 = (take (nat cap1) (out @ outf),
                                           int (length (take (nat cap1) (out @ outf))))))"
    proof (cases "isEndOfStream (dec_bitStream s)")
      case True
      then have f2: "f2 = s" using 1(2) r by simp
      have lo: "dec_loop cap1 s = Some (Inr s)" for cap1 using True by (subst dec_loop.simps) simp
      have "\<exists>f1. dec_loop cap1 s = Some (Inr f1)
                       \<and> dec_output f1 = (take (nat cap1) (out @ []),
                                           int (length (take (nat cap1) (out @ []))))"
        if "int (length out) \<le> cap1" for cap1
      proof -
        have "take (nat cap1) (out @ []) = out" using that by simp
        then show ?thesis unfolding lo using out by simp
      qed
      then have "\<forall>cap1. int (length out) \<le> cap1 \<and> cap1 \<le> cap2 \<longrightarrow>
                   (\<exists>f1. dec_loop cap1 s = Some (Inr f1)
                       \<and> dec_output f1 = (take (nat cap1) (out @ []),
                                           int (length (take (nat cap1) (out @ [])))))" by blast
      moreover have "dec_output f2 = (out @ [], int (length (out @ [])))" using f2 out by simp
      ultimately show ?thesis by blast
    next
      case False
      then obtain r0 where "dec_step cap2 s = Inr r0"
        using 1(2) r by (auto split: sum.splits)
      from dec_step_bytes [OF this out]
      obtain bs t u where bs: "bs \<noteq> []" "dec_output t = (out @ bs, int (length (out @ bs)))"
        and st: "\<And>cap. dec_step cap s =
                 Inr (if int (length out + length bs) \<le> cap then (True, t)
                      else (False, u\<lparr>dec_output :=
                              (out @ take (nat (cap - int (length out))) bs,
                               int (length (out @ take (nat (cap - int (length out))) bs)))\<rparr>))"
        by blast
      have stop: "dec_loop cap s = Some (Inr (u\<lparr>dec_output :=
                              (out @ take (nat (cap - int (length out))) bs,
                               int (length (out @ take (nat (cap - int (length out))) bs)))\<rparr>))"
        if "\<not> int (length out + length bs) \<le> cap" for cap
        using False that by (subst dec_loop.simps) (simp add: st)
      have go: "dec_loop cap s = dec_loop cap t" if "int (length out + length bs) \<le> cap" for cap
        using False that by (subst dec_loop.simps) (simp add: st)
      show ?thesis
      proof (cases "int (length out + length bs) \<le> cap2")
        case fits: True
        then have "loop cap2 t = Some r" using 1(2) False by (simp add: st)
        from 1(1) [OF this] r bs(2)
        obtain outf where outf: "dec_output f2 = ((out @ bs) @ outf, int (length ((out @ bs) @ outf)))"
          and low: "\<And>cap1. int (length (out @ bs)) \<le> cap1 \<Longrightarrow> cap1 \<le> cap2 \<Longrightarrow>
                   \<exists>f1. dec_loop cap1 t = Some (Inr f1)
                       \<and> dec_output f1 = (take (nat cap1) ((out @ bs) @ outf),
                                           int (length (take (nat cap1) ((out @ bs) @ outf))))"
          by blast
        have "\<exists>f1. dec_loop cap1 s = Some (Inr f1)
                       \<and> dec_output f1 = (take (nat cap1) (out @ bs @ outf),
                                           int (length (take (nat cap1) (out @ bs @ outf))))"
          if c: "int (length out) \<le> cap1" "cap1 \<le> cap2" for cap1
        proof (cases "int (length out + length bs) \<le> cap1")
          case True
          then show ?thesis using low [of cap1] c(2) go [of cap1] by simp
        next
          case False
          show ?thesis unfolding stop [OF False] take_fit [OF False c(1)] by simp
        qed
        moreover have "dec_output f2 = (out @ bs @ outf, int (length (out @ bs @ outf)))"
          using outf by simp
        ultimately show ?thesis by blast
      next
        case nofit: False
        define outf where "outf = take (nat (cap2 - int (length out))) bs"
        have f2: "dec_output f2 = (out @ outf, int (length (out @ outf)))"
          using 1(2) False nofit r by (auto simp: st outf_def)
        have "\<exists>f1. dec_loop cap1 s = Some (Inr f1)
                       \<and> dec_output f1 = (take (nat cap1) (out @ outf),
                                           int (length (take (nat cap1) (out @ outf))))"
          if c: "int (length out) \<le> cap1" "cap1 \<le> cap2" for cap1
        proof -
          have nf: "\<not> int (length out + length bs) \<le> cap1" using nofit c(2) by simp
          have "nat cap1 - length out = nat (cap1 - int (length out))" by simp
          moreover have "min (nat (cap1 - int (length out))) (nat (cap2 - int (length out)))
                         = nat (cap1 - int (length out))" using c(2) by simp
          ultimately have "take (nat cap1) (out @ outf) = out @ take (nat (cap1 - int (length out))) bs"
            using c(1) by (simp add: outf_def take_append)
          then show ?thesis unfolding stop [OF nf] by simp
        qed
        then show ?thesis using f2 by blast
      qed
    qed
  qed
qed
lemma map_Some_replicate_None:
  assumes "map Some xs @ replicate k None = map Some ys"
  shows "xs = ys" "k = 0"
proof -
  show k: "k = 0"
  proof (rule ccontr)
    assume "k \<noteq> 0"
    then have "None \<in> set (map Some xs @ replicate k None)" by simp
    then have "None \<in> set (map Some ys)" using assms by simp
    then show False by auto
  qed
  then have "map Some xs = map Some ys" using assms by simp
  then show "xs = ys" by (simp add: inj_map_eq_map)
qed

lemma sint_nonneg_32:
  assumes "uint (w :: 32 word) < 2 ^ 31"
  shows "sint w = uint w" "nat (sint w) = unat w"
proof -
  have "sint w = signed_take_bit 31 (uint w)" by (simp add: sint_uint)
  also have "\<dots> = uint w"
  proof (rule signed_take_bit_int_eq_self)
    have "0 \<le> uint w" by simp
    moreover have "- (2 ^ 31) \<le> (0 :: int)" by simp
    ultimately show "- (2 ^ 31) \<le> uint w" by (rule order_trans [rotated])
    show "uint w < 2 ^ 31" using assms .
  qed
  finally show "sint w = uint w" .
  then show "nat (sint w) = unat w" by simp
qed

lemma sint_neg_32:
  assumes "\<not> uint (w :: 32 word) < 2 ^ 31"
  shows "sint w < 0"
proof -
  have "sint w = signed_take_bit 31 (uint w)" by (simp add: sint_uint)
  also have "\<dots> \<le> uint w - 2 ^ Suc 31" using assms by (intro signed_take_bit_int_less_eq) simp
  also have "\<dots> < 0" using uint_bounded [of w] by simp
  finally show ?thesis .
qed

text \<open>
  Less room, on any stream: if the decoder with expected size \<open>M\<close> fills all \<open>M\<close> bytes,
  then with an expected size \<open>N < M\<close> it returns the first \<open>N\<close> of them.
\<close>

lemma lzwDecode_capacity:
  assumes "lzwDecode buf nb n M = Some (Inr (map Some outM))" "N < M"
  shows "lzwDecode buf nb n N = Some (Inr (map Some (take (unat N) outM)))"
proof -
  let ?s = "dec_init buf nb n"
  have M0: "M \<noteq> 0" using assms(2) by auto
  have posM: "uint M < 2 ^ 31"
  proof (rule ccontr)
    assume "\<not> uint M < 2 ^ 31"
    from lzwDecode_negative_size [OF sint_neg_32 [OF this] assms(1)]
    have "map Some outM = replicate (unat M) None" .
    then have "map Some [] @ replicate (unat M) None = map Some outM" by simp
    from map_Some_replicate_None(2) [OF this] show False using M0 by (simp add: unat_eq_0)
  qed
  have NM: "uint N < uint M" using assms(2) by (simp add: word_less_def)
  then have posN: "uint N < 2 ^ 31" using posM by simp
  note sM = sint_nonneg_32 [OF posM] and sN = sint_nonneg_32 [OF posN]
  from assms(1) obtain f2 where f2: "dec_loop (sint M) ?s = Some (Inr f2)"
    and b: "map Some (fst (dec_output f2)) @ replicate (unat M - length (fst (dec_output f2))) None
            = map Some outM"
    by (auto simp: lzwDecode_def split: option.splits sum.splits)
  have o: "dec_output ?s = ([], int (length ([] :: byte list)))" by (simp add: dec_init_def)
  from dec_loop_cap [OF f2, rule_format, OF refl o]
  obtain outf where outf: "dec_output f2 = ([] @ outf, int (length ([] @ outf)))"
    and low: "\<And>cap1. int (length ([] :: byte list)) \<le> cap1 \<and> cap1 \<le> sint M \<Longrightarrow>
                \<exists>f1. dec_loop cap1 ?s = Some (Inr f1)
                   \<and> dec_output f1 = (take (nat cap1) ([] @ outf), int (length (take (nat cap1) ([] @ outf))))"
    by blast
  have eq: "outf = outM" using map_Some_replicate_None(1) [OF b] outf by simp
  have "int (length ([] :: byte list)) \<le> sint N \<and> sint N \<le> sint M" using sM(1) sN(1) NM by simp
  from low [OF this] obtain f1 where f1: "dec_loop (sint N) ?s = Some (Inr f1)"
    "dec_output f1 = (take (unat N) outM, int (length (take (unat N) outM)))"
    using sN(2) eq by auto
  have "unat M - length outf = 0" using map_Some_replicate_None(2) [OF b] outf by simp
  then have "unat N \<le> length outM" using eq unat_mono [OF assms(2)] by simp
  then have "unat N - length (take (unat N) outM) = 0" by simp
  then show ?thesis using f1 by (simp add: lzwDecode_def)
qed

text \<open>Less room, on a stream of the encoder: the first \<open>N\<close> bytes of the input.\<close>

lemma lzwDecode_encoded_capacity:
  assumes "lzwEncode S = Inr (buf, nb, n)" "uint N < 2 ^ 31" "unat N < length S"
  shows "lzwDecode buf nb n N = Some (Inr (map Some (take (unat N) S)))"
proof -
  let ?s = "dec_init buf nb n"
  from decode_encoded [OF assms(1), of "int (length S)"]
  obtain tr where tr: "dec_trace (int (length S)) ?s = Some (Inr tr)"
    "dec_output (last (?s # tr)) = (S, int (length S))" by auto
  have f2: "dec_loop (int (length S)) ?s = Some (Inr (last (?s # tr)))"
    using dec_loop_of_trace [OF tr(1)] .
  have o: "dec_output ?s = ([], int (length ([] :: byte list)))" by (simp add: dec_init_def)
  note sN = sint_nonneg_32 [OF assms(2)]
  from dec_loop_cap [OF f2, rule_format, OF refl o]
  obtain outf where outf: "dec_output (last (?s # tr)) = ([] @ outf, int (length ([] @ outf)))"
    and low: "\<And>cap1. int (length ([] :: byte list)) \<le> cap1 \<and> cap1 \<le> int (length S) \<Longrightarrow>
                \<exists>f1. dec_loop cap1 ?s = Some (Inr f1)
                   \<and> dec_output f1 = (take (nat cap1) ([] @ outf), int (length (take (nat cap1) ([] @ outf))))"
    by blast
  have eq: "outf = S" using outf tr(2) by simp
  have "uint N \<le> int (length S)" unfolding uint_nat using assms(3) by linarith
  then have "int (length ([] :: byte list)) \<le> sint N \<and> sint N \<le> int (length S)"
    using sN(1) by simp
  from low [OF this] obtain f1 where f1: "dec_loop (sint N) ?s = Some (Inr f1)"
    "dec_output f1 = (take (unat N) S, int (length (take (unat N) S)))"
    using sN(2) eq by auto
  have "unat N - length (take (unat N) S) = 0" using assms(3) by simp
  then show ?thesis using f1 by (simp add: lzwDecode_def)
qed

text \<open>
  The output capacity within the range of \<open>int\<close>. For an expected size \<open>N\<close> below \<open>2 ^ 31\<close>: if \<open>lzwDecode\<close> with a larger expected size
  \<open>M\<close> returns a buffer whose \<open>M\<close> bytes are all written, then with \<open>N\<close> it returns, without a
  fault, a buffer of \<open>N\<close> bytes, all written, the first \<open>N\<close> of those bytes; and on the stream
  that \<open>lzwEncode\<close> returns for an input of more than \<open>N\<close> bytes, these are the first \<open>N\<close>
  bytes of the input.
\<close>

theorem C3_output_capacity:
  assumes "uint N < 2 ^ 31"
  shows "(\<forall>M outM. lzwDecode buf nb n M = Some (Inr (map Some outM)) \<and> N < M \<longrightarrow>
            lzwDecode buf nb n N = Some (Inr (map Some (take (unat N) outM))))
       \<and> (\<forall>S. lzwEncode S = Inr (buf, nb, n) \<and> unat N < length S \<longrightarrow>
            lzwDecode buf nb n N = Some (Inr (map Some (take (unat N) S))))"
  using lzwDecode_capacity lzwDecode_encoded_capacity [OF _ assms] by blast

theorem C3_output_capacity_witness:
  "uint (2 :: 32 word) < 2 ^ 31
   \<and> lzwDecode [0x61, 0xC2, 0x88, 0x01] 4 27 3 = Some (Inr (map Some [97, 97, 98])) \<and> (2 :: 32 word) < 3
   \<and> lzwDecode [0x61, 0xC2, 0x88, 0x01] 4 27 2 = Some (Inr (map Some (take (unat (2 :: 32 word)) [97, 97, 98])))
   \<and> (\<exists>buf nb n. lzwEncode [97, 97, 98] = Inr (buf, nb, n) \<and> unat (2 :: 32 word) < length [97 :: byte, 97, 98]
          \<and> lzwDecode buf nb n 2 = Some (Inr (map Some (take (unat (2 :: 32 word)) [97, 97, 98]))))"
proof -
  have u: "uint (2 :: 32 word) < 2 ^ 31" by simp
  have d: "lzwDecode [0x61, 0xC2, 0x88, 0x01] 4 27 3 = Some (Inr (map Some [97, 97, 98]))"
    by code_simp
  have lt: "(2 :: 32 word) < 3" by simp
  have "12 * (length [97 :: byte, 97, 98] + 1) < 2 ^ 30" by simp
  from lzwEncode_total [OF this]
  obtain buf nb n where e: "lzwEncode [97, 97, 98] = Inr (buf, nb, n)" by blast
  have l: "unat (2 :: 32 word) < length [97 :: byte, 97, 98]" by simp
  from C3_output_capacity [OF u, of "[0x61, 0xC2, 0x88, 0x01]" 4 27] d lt
  have a: "lzwDecode [0x61, 0xC2, 0x88, 0x01] 4 27 2 =
             Some (Inr (map Some (take (unat (2 :: 32 word)) [97, 97, 98])))" by blast
  from C3_output_capacity [OF u, of buf nb n] e l
  have b: "lzwDecode buf nb n 2 = Some (Inr (map Some (take (unat (2 :: 32 word)) [97, 97, 98])))"
    by blast
  from u d lt a e l b show ?thesis by blast
qed

text \<open>
  C3. The capacity fails at the expected size \<open>2 ^ 31\<close>, which is the \<open>int\<close> \<open>- 2 ^ 31\<close> in
  the decoder: on the stream of \<open>aab\<close> the decoder returns with no byte written, and from no
  stream, whatever its decompressed length, does \<open>lzwDecode\<close> write a byte, where the first
  \<open>2 ^ 31\<close> bytes of the output are due.
\<close>

theorem C3_failing_input:
  "lzwDecode [0x61, 0xC2, 0x88, 0x01] 4 27 2147483648 =
     Some (Inr (replicate (unat (2147483648 :: 32 word)) None))
   \<and> \<not> (\<exists>buf nb n r. lzwDecode buf nb n 2147483648 = Some (Inr r)
         \<and> r \<noteq> replicate (unat (2147483648 :: 32 word)) None)"
proof
  have "case dec_loop (sint (2147483648 :: 32 word)) (dec_init [0x61, 0xC2, 0x88, 0x01] 4 27) of
          Some (Inr f) \<Rightarrow> dec_output f = ([], 0) | _ \<Rightarrow> False"
    by code_simp
  then obtain f where
    f: "dec_loop (sint (2147483648 :: 32 word)) (dec_init [0x61, 0xC2, 0x88, 0x01] 4 27) = Some (Inr f)"
      "dec_output f = ([], 0)"
    by (auto split: option.splits sum.splits)
  show "lzwDecode [0x61, 0xC2, 0x88, 0x01] 4 27 2147483648 =
          Some (Inr (replicate (unat (2147483648 :: 32 word)) None))"
    unfolding lzwDecode_def f(1)
    by (simp only: option.case sum.case f(2) fst_conv list.map list.size append_Nil minus_nat.diff_0)
next
  have "sint (2147483648 :: 32 word) < 0" by simp
  from lzwDecode_negative_size [OF this]
  show "\<not> (\<exists>buf nb n r. lzwDecode buf nb n 2147483648 = Some (Inr r)
         \<and> r \<noteq> replicate (unat (2147483648 :: 32 word)) None)"
    by blast
qed

subsection \<open>The decoder on any stream\<close>

lemma flush_width:
  assumes "9 \<le> w" "w \<le> 12" "flush w d = (reset, d', w')"
  shows "9 \<le> w'" "w' \<le> 12"
  using assms next_width_range [OF assms(1,2), of "dsize d"] by (auto simp: flush_eq')

text \<open>A pass reads its code at the width of the state and leaves the width in range.\<close>

lemma dec_step_reader:
  assumes "dec_step cap s = Inr (c, s')"
  shows "\<exists>v. readBitsU64 (dec_bitStream s) (dec_codeBitsWidth s) = Inr (v, dec_bitStream s')"
  using assms
  by (auto simp: dec_step_def Let_def split: sum.splits prod.splits if_splits bool.splits)

lemma dec_step_width:
  assumes "dec_step cap s = Inr (c, s')" "9 \<le> dec_codeBitsWidth s" "dec_codeBitsWidth s \<le> 12"
  shows "9 \<le> dec_codeBitsWidth s'" "dec_codeBitsWidth s' \<le> 12"
  using assms flush_width [OF assms(2,3)]
  by (auto simp: dec_step_def Let_def split: sum.splits prod.splits if_splits bool.splits)

lemma dec_step_output:
  assumes "dec_step cap s = Inr (c, s')" "dec_output s = (out, int (length out))"
  shows "\<exists>out'. dec_output s' = (out', int (length out')) \<and> length out \<le> length out'
           \<and> int (length out') \<le> max cap (int (length out))
           \<and> (\<not> c \<longrightarrow> cap \<le> int (length out'))"
proof -
  from dec_step_bytes [OF assms]
  obtain bs t u where bs: "bs \<noteq> []" "dec_output t = (out @ bs, int (length (out @ bs)))"
    and st: "dec_step cap s =
                 Inr (if int (length out + length bs) \<le> cap then (True, t)
                      else (False, u\<lparr>dec_output :=
                              (out @ take (nat (cap - int (length out))) bs,
                               int (length (out @ take (nat (cap - int (length out))) bs)))\<rparr>))"
    by blast
  show ?thesis
  proof (cases "int (length out + length bs) \<le> cap")
    case True
    then have "c" "s' = t" using st assms(1) by simp_all
    then show ?thesis using bs True by (intro exI [of _ "out @ bs"]) simp
  next
    case False
    define out' where "out' = out @ take (nat (cap - int (length out))) bs"
    have "\<not> c" "dec_output s' = (out', int (length out'))"
      using st assms(1) False by (auto simp: out'_def)
    moreover have "length out \<le> length out'" by (simp add: out'_def)
    moreover have "int (length out') \<le> max cap (int (length out))" "cap \<le> int (length out')"
      using False by (auto simp: out'_def min_def)
    ultimately show ?thesis by blast
  qed
qed

text \<open>
  Every pass of the loop consumes at least one bit, so the loop ends: with the state at the
  end of the stream or at a full output, or with a fault in a walk through the dictionary.
\<close>

lemma dec_loop_total:
  assumes cov: "n \<le> 8 * int (length buf)"
    and "dec_bitStream s = reader_at buf nb n p" "int p \<le> max 0 n"
    and "9 \<le> dec_codeBitsWidth s" "dec_codeBitsWidth s \<le> 12"
    and "dec_output s = (out, int (length out))"
  shows "\<exists>r. dec_loop cap s = Some r
           \<and> (\<forall>f. r = Inr f \<longrightarrow>
                 (\<exists>p' out'. dec_bitStream f = reader_at buf nb n p' \<and> int p' \<le> max 0 n
                    \<and> dec_output f = (out', int (length out'))
                    \<and> int (length out') \<le> max cap (int (length out))
                    \<and> (n \<le> int p' \<or> cap \<le> int (length out'))))"
  using assms(2-)
proof (induction "nat (n - int p)" arbitrary: s p out rule: less_induct)
  case less
  show ?case
  proof (cases "isEndOfStream (dec_bitStream s)")
    case True
    then have "dec_loop cap s = Some (Inr s)" by (subst dec_loop.simps) simp
    moreover have "n \<le> int p" using True less.prems(1) by (simp add: isEndOfStream_at)
    ultimately show ?thesis using less.prems by auto
  next
    case False
    then have pn: "int p < n" using less.prems(1) by (simp add: isEndOfStream_at)
    show ?thesis
    proof (cases "dec_step cap s")
      case (Inl e)
      then have "dec_loop cap s = Some (Inl e)" using False by (subst dec_loop.simps) simp
      then show ?thesis by simp
    next
      case (Inr r)
      obtain c s' where r: "r = (c, s')" by (cases r)
      note st = Inr [unfolded r]
      define p' where "p' = p + min (nat (dec_codeBitsWidth s)) (nat (n - int p))"
      have rd: "dec_bitStream s' = reader_at buf nb n p'"
        using dec_step_reader [OF st] readBitsU64_at [OF cov, of nb p "dec_codeBitsWidth s"]
        by (auto simp: less.prems(1) p'_def)
      have p': "p < p'" "int p' \<le> max 0 n" using pn less.prems(3) by (auto simp: p'_def)
      note w = dec_step_width [OF st less.prems(3,4)]
      from dec_step_output [OF st less.prems(5)]
      obtain out' where out': "dec_output s' = (out', int (length out'))" "length out \<le> length out'"
        "int (length out') \<le> max cap (int (length out))" "\<not> c \<longrightarrow> cap \<le> int (length out')"
        by blast
      show ?thesis
      proof (cases c)
        case True
        have "nat (n - int p') < nat (n - int p)" using p'(1) pn by simp
        from less.hyps [OF this rd p'(2) w out'(1)]
        obtain r' where r': "dec_loop cap s' = Some r'"
          "\<forall>f. r' = Inr f \<longrightarrow>
                 (\<exists>p'' out''. dec_bitStream f = reader_at buf nb n p'' \<and> int p'' \<le> max 0 n
                    \<and> dec_output f = (out'', int (length out''))
                    \<and> int (length out'') \<le> max cap (int (length out'))
                    \<and> (n \<le> int p'' \<or> cap \<le> int (length out'')))"
          by blast
        have "dec_loop cap s = Some r'" using False st True r'(1) by (subst dec_loop.simps) simp
        moreover have "max cap (int (length out')) \<le> max cap (int (length out))" using out'(3) by simp
        ultimately show ?thesis using r'(2) by (intro exI [of _ r']) fastforce
      next
        case False
        have "dec_loop cap s = Some (Inr s')"
          using \<open>\<not> isEndOfStream (dec_bitStream s)\<close> st False by (subst dec_loop.simps) simp
        then show ?thesis using rd p'(2) out' False by auto
      qed
    qed
  qed
qed

subsection \<open>The decoder on a stream of the encoder cut short\<close>

lemma word_of_bits_small:
  assumes "length bs \<le> 12"
  shows "sint (ucast (word_of_bits bs) :: 32 word) = uint (word_of_bits bs)"
    and "0 \<le> uint (word_of_bits bs)" "uint (word_of_bits bs) < 4096"
proof -
  let ?v = "word_of_bits bs"
  have tb: "take_bit 12 ?v = ?v"
    by (rule bit_eqI) (use assms in \<open>auto simp: bit_take_bit_iff bit_word_of_bits\<close>)
  have "take_bit 12 (uint ?v) < 2 ^ 12" by (rule take_bit_int_less_exp)
  then have "uint (take_bit 12 ?v) < 2 ^ 12" by (simp only: unsigned_take_bit_eq)
  then show lt: "uint ?v < 4096" using tb by simp
  show ge: "0 \<le> uint ?v" by simp
  have "sint (ucast (take_bit (nat 12) (word_of_int (uint ?v) :: 64 word)) :: 32 word) = uint ?v"
    using lt ge by (intro code_roundtrip) simp_all
  then show "sint (ucast ?v :: 32 word) = uint ?v" using tb by simp
qed

lemma word_of_bits_take: "uint (word_of_bits (take k bs)) \<le> uint (word_of_bits bs)"
proof -
  have "word_of_bits (take k bs) = take_bit k (word_of_bits bs)"
    by (rule bit_eqI) (auto simp: bit_take_bit_iff bit_word_of_bits)
  then have "uint (word_of_bits (take k bs)) = take_bit k (uint (word_of_bits bs))"
    by (simp add: unsigned_take_bit_eq)
  also have "\<dots> \<le> uint (word_of_bits bs)" by (simp add: take_bit_int_less_eq_self_iff)
  finally show ?thesis .
qed

text \<open>A pass uses the reader only for the code it reads.\<close>

lemma dec_step_reader_cong:
  assumes "readBitsU64 (dec_bitStream s) (dec_codeBitsWidth s) = Inr (v, r1)"
    and "readBitsU64 rd' (dec_codeBitsWidth s) = Inr (v, r1')"
    and "dec_step cap s = Inr (c, t)"
  shows "dec_step cap (s\<lparr>dec_bitStream := rd'\<rparr>) = Inr (c, t\<lparr>dec_bitStream := r1'\<rparr>)"
  using assms
  by (auto simp: dec_step_def Let_def split: sum.splits prod.splits if_splits bool.splits)

lemma dec_step_sequence:
  assumes "dec_step cap s = Inr r" "dec_prevCode s \<noteq> Nil_code"
    and "readBitsU64 (dec_bitStream s) (dec_codeBitsWidth s) = Inr (v, r1)"
  shows "\<exists>q. dec_sequence (dec_dictionary s) (dec_prevCode s) (sint (ucast v :: 32 word)) cap
               (dec_output s) = Inr q"
  using assms by (auto simp: dec_step_def Let_def split: sum.splits)

lemma dec_step_no_fault:
  assumes "readBitsU64 (dec_bitStream s) (dec_codeBitsWidth s) = Inr (v, r1)"
    and "dec_prevCode s = Nil_code \<or>
         (\<exists>q. dec_sequence (dec_dictionary s) (dec_prevCode s) (sint (ucast v :: 32 word)) cap
                 (dec_output s) = Inr q)"
  shows "\<exists>c t. dec_step cap s = Inr (c, t) \<and> dec_bitStream t = r1"
  using assms
  by (auto simp: dec_step_def Let_def split: sum.splits prod.splits if_splits bool.splits)

lemma dec_sequence_wf:
  assumes "dict_wf d" "0 \<le> c" "c < dsize d"
  shows "\<exists>q. dec_sequence d p c cap st = Inr q"
proof -
  from chain_exists [OF assms] obtain bs where bs: "chain d c bs" by blast
  have "c < 4096" using assms(1,3) by (simp add: dict_wf_def)
  from outputSequence_chain [OF bs assms(2) this, of cap "fst st" "snd st"]
  show ?thesis using assms(3) by (simp add: dec_sequence_def)
qed

lemma dec_sequence_beyond:
  assumes "dsize d \<le> c" "dsize d \<le> c'"
  shows "dec_sequence d p c' cap st = dec_sequence d p c cap st"
  using assms by (simp add: dec_sequence_def)

text \<open>
  The pass that reads a code cut short by the end of the stream: the code it gets is not
  above the whole code, so it walks from an entry of the dictionary or from the previous
  code, as the pass on the whole code does, and does not fault.
\<close>

lemma dec_step_partial:
  assumes cov: "n \<le> 8 * int (length buf)" and n': "n' \<le> n" "int p < n'"
    and rd: "dec_bitStream s = reader_at buf nb n p"
    and w: "9 \<le> dec_codeBitsWidth s" "dec_codeBitsWidth s \<le> 12"
    and wf: "dict_wf (dec_dictionary s)"
    and full: "dec_step cap s = Inr r"
  shows "\<exists>c t. dec_step cap (s\<lparr>dec_bitStream := reader_at buf nb n' p\<rparr>) = Inr (c, t)
           \<and> dec_bitStream t =
               reader_at buf nb n' (p + min (nat (dec_codeBitsWidth s)) (nat (n' - int p)))"
proof -
  let ?w = "dec_codeBitsWidth s"
  let ?s' = "s\<lparr>dec_bitStream := reader_at buf nb n' p\<rparr>"
  define m where "m = min (nat ?w) (nat (n - int p))"
  define k where "k = min (nat ?w) (nat (n' - int p))"
  define bs where "bs = map (stream_bit buf) [p ..< p + m]"
  have km: "k \<le> m" using n' by (simp add: k_def m_def)
  have m12: "m \<le> 12" using w by (simp add: m_def)
  have cov': "n' \<le> 8 * int (length buf)" using cov n'(1) by simp
  have rf: "readBitsU64 (dec_bitStream s) ?w = Inr (word_of_bits bs, reader_at buf nb n (p + m))"
    using readBitsU64_at [OF cov, of nb p ?w] by (simp add: rd m_def bs_def)
  have tk: "map (stream_bit buf) [p ..< p + k] = take k bs"
    using km by (simp add: bs_def take_map take_upt)
  have rt: "readBitsU64 (dec_bitStream ?s') (dec_codeBitsWidth ?s') =
              Inr (word_of_bits (take k bs), reader_at buf nb n' (p + k))"
    using readBitsU64_at [OF cov', of nb p ?w] by (simp add: k_def [symmetric] tk)
  define code where "code = sint (ucast (word_of_bits bs) :: 32 word)"
  define code' where "code' = sint (ucast (word_of_bits (take k bs)) :: 32 word)"
  have lb: "length bs \<le> 12" "length (take k bs) \<le> 12" using m12 by (simp_all add: bs_def)
  have c: "code = uint (word_of_bits bs)" "code' = uint (word_of_bits (take k bs))"
    using word_of_bits_small(1) [OF lb(1)] word_of_bits_small(1) [OF lb(2)]
    by (simp_all add: code_def code'_def)
  have le: "code' \<le> code" "0 \<le> code'" using word_of_bits_take [of k bs] c by simp_all
  have "dec_prevCode ?s' = Nil_code \<or>
         (\<exists>q. dec_sequence (dec_dictionary ?s') (dec_prevCode ?s') code' cap (dec_output ?s') = Inr q)"
  proof (cases "dec_prevCode s = Nil_code")
    case True
    then show ?thesis by simp
  next
    case False
    from dec_step_sequence [OF full False rf]
    obtain q where q: "dec_sequence (dec_dictionary s) (dec_prevCode s) code cap (dec_output s) = Inr q"
      by (auto simp: code_def)
    show ?thesis
    proof (cases "code' < dsize (dec_dictionary s)")
      case True
      from dec_sequence_wf [OF wf le(2) True] show ?thesis by simp
    next
      case False
      then have "dsize (dec_dictionary s) \<le> code" "dsize (dec_dictionary s) \<le> code'"
        using le(1) by simp_all
      from dec_sequence_beyond [OF this, of "dec_prevCode s" cap "dec_output s"] q
      have "dec_sequence (dec_dictionary s) (dec_prevCode s) code' cap (dec_output s) = Inr q"
        by simp
      then show ?thesis by (intro disjI2 exI [of _ q]) simp
    qed
  qed
  from dec_step_no_fault [OF rt this [unfolded code'_def]]
  show ?thesis by (simp add: k_def)
qed

lemma dec_trace_Nil:
  assumes "dec_trace cap D = Some (Inr [])"
  shows "isEndOfStream (dec_bitStream D)"
  using assms
  by (subst (asm) dec_trace.simps)
     (auto split: if_splits sum.splits prod.splits Option.bind_splits)

lemma dec_trace_Cons:
  assumes "dec_trace cap D = Some (Inr (a # tr))"
  shows "\<not> isEndOfStream (dec_bitStream D)"
    and "\<exists>c. dec_step cap D = Inr (c, a) \<and> (if c then dec_trace cap a = Some (Inr tr) else tr = [])"
proof -
  show ne: "\<not> isEndOfStream (dec_bitStream D)"
    using assms by (subst (asm) dec_trace.simps) (auto split: if_splits)
  show "\<exists>c. dec_step cap D = Inr (c, a) \<and> (if c then dec_trace cap a = Some (Inr tr) else tr = [])"
    using assms ne
    by (subst (asm) dec_trace.simps)
       (auto split: if_splits sum.splits prod.splits Option.bind_splits)
qed

text \<open>
  With fewer bits declared than the encoder wrote, the decoder makes the same passes as on
  the whole stream as long as the codes are whole, then at most one pass on a code cut
  short, and stops.
\<close>

lemma dec_loop_cut:
  assumes cov: "n \<le> 8 * int (length buf)" and n': "n' \<le> n"
    and "dec_trace cap D = Some (Inr tr)" "dec_bitStream D = reader_at buf nb n p"
    and "9 \<le> dec_codeBitsWidth D" "dec_codeBitsWidth D \<le> 12"
    and "\<forall>st \<in> set (D # tr). dict_wf (dec_dictionary st)"
  shows "\<exists>f. dec_loop cap (D\<lparr>dec_bitStream := reader_at buf nb n' p\<rparr>) = Some (Inr f)"
  using assms(3-)
proof (induction tr arbitrary: D p)
  case Nil
  from dec_trace_Nil [OF Nil(1)] have "n' \<le> int p"
    using Nil(2) n' by (simp add: isEndOfStream_at)
  then show ?case by (subst dec_loop.simps) (simp add: isEndOfStream_at)
next
  case (Cons a tr)
  let ?w = "dec_codeBitsWidth D"
  let ?D' = "D\<lparr>dec_bitStream := reader_at buf nb n' p\<rparr>"
  from dec_trace_Cons [OF Cons.prems(1)]
  obtain c where ne: "\<not> isEndOfStream (dec_bitStream D)"
    and st: "dec_step cap D = Inr (c, a)"
    and c: "if c then dec_trace cap a = Some (Inr tr) else tr = []" by blast
  have cov': "n' \<le> 8 * int (length buf)" using cov n' by simp
  show ?case
  proof (cases "n' \<le> int p")
    case True
    then show ?thesis by (subst dec_loop.simps) (simp add: isEndOfStream_at)
  next
    case False
    then have ne': "\<not> isEndOfStream (dec_bitStream ?D')" by (simp add: isEndOfStream_at)
    show ?thesis
    proof (cases "int (p + nat ?w) \<le> n'")
      case whole: True
      have m: "min (nat ?w) (nat (n - int p)) = nat ?w" "min (nat ?w) (nat (n' - int p)) = nat ?w"
        using whole n' Cons.prems(3) by (simp_all add: min_def)
      have rf: "readBitsU64 (dec_bitStream D) ?w =
                  Inr (word_of_bits (map (stream_bit buf) [p ..< p + nat ?w]),
                       reader_at buf nb n (p + nat ?w))"
        using readBitsU64_at [OF cov, of nb p ?w] by (simp add: Cons.prems(2) m)
      have rt: "readBitsU64 (reader_at buf nb n' p) ?w =
                  Inr (word_of_bits (map (stream_bit buf) [p ..< p + nat ?w]),
                       reader_at buf nb n' (p + nat ?w))"
        using readBitsU64_at [OF cov', of nb p ?w] by (simp add: m)
      have st': "dec_step cap ?D' = Inr (c, a\<lparr>dec_bitStream := reader_at buf nb n' (p + nat ?w)\<rparr>)"
        using dec_step_reader_cong [OF rf rt st] .
      show ?thesis
      proof (cases c)
        case True
        have ra: "dec_bitStream a = reader_at buf nb n (p + nat ?w)"
          using dec_step_reader [OF st] rf by simp
        have "\<exists>f. dec_loop cap (a\<lparr>dec_bitStream := reader_at buf nb n' (p + nat ?w)\<rparr>) = Some (Inr f)"
          using Cons.IH [OF _ ra dec_step_width [OF st Cons.prems(3,4)]] c True Cons.prems(5)
          by simp
        then show ?thesis using ne' st' True by (subst dec_loop.simps) simp
      next
        case False
        then show ?thesis using ne' st' by (subst dec_loop.simps) simp
      qed
    next
      case cut: False
      have wf: "dict_wf (dec_dictionary D)" using Cons.prems(5) by simp
      have pn: "int p < n'" using False by simp
      from dec_step_partial [OF cov n' pn Cons.prems(2,3,4) wf st]
      obtain c' t where t: "dec_step cap ?D' = Inr (c', t)"
        "dec_bitStream t = reader_at buf nb n' (p + min (nat ?w) (nat (n' - int p)))" by blast
      have "min (nat ?w) (nat (n' - int p)) = nat (n' - int p)"
        using cut Cons.prems(3) by (simp add: min_def)
      then have "isEndOfStream (dec_bitStream t)" using t(2) pn by (simp add: isEndOfStream_at)
      then have "dec_loop cap t = Some (Inr t)" by (subst dec_loop.simps) simp
      then show ?thesis using ne' t(1) by (subst dec_loop.simps) simp
    qed
  qed
qed

lemma dec_init_cut:
  "dec_init buf nb n' = (dec_init buf nb n)\<lparr>dec_bitStream := reader_at buf (sint nb) (sint n') 0\<rparr>"
  by (simp add: dec_init_def BitStreamReader_init_at)

text \<open>
  On a stream of the encoder, with any number of bits declared up to those the encoder
  wrote and any capacity of the output, the loop of the decoder ends without a fault.
\<close>

lemma decode_cut_no_fault:
  assumes "lzwEncode S = Inr (buf, nb, n)" "sint n' \<le> sint n"
  shows "\<exists>f. dec_loop cap (dec_init buf nb n') = Some (Inr f)"
proof -
  let ?s = "dec_init buf nb n'"
  define C where "C = max cap (int (length S))"
  from lzwEncode_stream [OF assms(1)]
  have cov: "sint n \<le> 8 * int (length buf)" by auto
  from decode_encoded [OF assms(1), of C]
  obtain tr where tr: "dec_trace C (dec_init buf nb n) = Some (Inr tr)"
    "\<forall>st \<in> set (dec_init buf nb n # tr). dict_wf (dec_dictionary st)"
    by (auto simp: C_def)
  have rd: "dec_bitStream (dec_init buf nb n) = reader_at buf (sint nb) (sint n) 0"
    by (simp add: dec_init_def BitStreamReader_init_at)
  have w: "9 \<le> dec_codeBitsWidth (dec_init buf nb n)" "dec_codeBitsWidth (dec_init buf nb n) \<le> 12"
    by (simp_all add: dec_init_def StartBits_def)
  from dec_loop_cut [OF cov assms(2) tr(1) rd w tr(2)]
  obtain f2 where f2: "dec_loop C ?s = Some (Inr f2)" by (auto simp: dec_init_cut [of buf nb n' n])
  have o: "dec_output ?s = ([], int (length ([] :: byte list)))" by (simp add: dec_init_def)
  show ?thesis
  proof (cases "0 \<le> cap")
    case True
    then have "int (length ([] :: byte list)) \<le> cap \<and> cap \<le> C" by (simp add: C_def)
    with dec_loop_cap [OF f2, rule_format, OF refl o] show ?thesis by blast
  next
    case False
    show ?thesis
    proof (cases "isEndOfStream (dec_bitStream ?s)")
      case True
      then show ?thesis by (subst dec_loop.simps) simp
    next
      case ne: False
      then obtain r0 where "dec_step C ?s = Inr r0"
        using f2 by (subst (asm) dec_loop.simps) (auto split: sum.splits)
      from dec_step_bytes [OF this o]
      obtain bs t u where st: "\<And>cap. dec_step cap ?s =
                 Inr (if int (length ([] :: byte list) + length bs) \<le> cap then (True, t)
                      else (False, u\<lparr>dec_output :=
                              ([] @ take (nat (cap - int (length ([] :: byte list)))) bs,
                               int (length ([] @ take (nat (cap - int (length ([] :: byte list)))) bs)))\<rparr>))"
        by blast
      have "\<not> int (length ([] :: byte list) + length bs) \<le> cap" using False by simp
      then show ?thesis using ne by (subst dec_loop.simps) (simp add: st)
    qed
  qed
qed

text \<open>
  C7 (as amended). On a stream that \<open>lzwEncode\<close> returns, with any bit count \<open>n'\<close> not above
  the one the encoder returned and any expected size \<open>N\<close>, the loop of \<open>lzwDecode\<close> ends
  without a fault; \<open>lzwDecode\<close> returns the buffer alone, with the bytes written followed by
  unwritten cells. The decoder has read at most \<open>n'\<close> bits and written at most \<open>N\<close> bytes,
  and it stopped at the end of the bits or at a full output.
\<close>

theorem C7_truncated_input:
  assumes "lzwEncode S = Inr (buf, nb, n)" "n' \<le> n"
  shows "\<exists>f. dec_loop (sint N) (dec_init buf nb n') = Some (Inr f)
           \<and> lzwDecode buf nb n' N =
               Some (Inr (map Some (fst (dec_output f))
                          @ replicate (unat N - length (fst (dec_output f))) None))
           \<and> numBitsRead (dec_bitStream f) \<le> uint n'
           \<and> int (length (fst (dec_output f))) \<le> max 0 (sint N)
           \<and> (isEndOfStream (dec_bitStream f) \<or> sint N \<le> int (length (fst (dec_output f))))"
proof -
  let ?s = "dec_init buf nb n'"
  from lzwEncode_stream [OF assms(1)]
  obtain bits :: "bool list" where e: "sint n = int (length bits)" "length bits < 2 ^ 30"
    "sint n \<le> 8 * int (length buf)" by blast
  have "0 \<le> sint n" using e(1) by simp
  moreover have "sint n < 2 ^ 31" using e(1,2) by simp
  ultimately have un: "uint n < 2 ^ 31"
    using sint_neg_32 [of n] by (cases "uint n < 2 ^ 31") simp_all
  have "uint n' \<le> uint n" using assms(2) by (simp add: word_le_def)
  then have un': "uint n' < 2 ^ 31" using un by simp
  have sn: "sint n = uint n" "sint n' = uint n'"
    using sint_nonneg_32(1) [OF un] sint_nonneg_32(1) [OF un'] by simp_all
  have n': "sint n' \<le> sint n" using sn \<open>uint n' \<le> uint n\<close> by simp
  from decode_cut_no_fault [OF assms(1) n', of "sint N"]
  obtain f where f: "dec_loop (sint N) ?s = Some (Inr f)" by blast
  have cov: "sint n' \<le> 8 * int (length buf)" using e(3) n' by simp
  have s: "dec_bitStream ?s = reader_at buf (sint nb) (sint n') 0" "int 0 \<le> max 0 (sint n')"
    "9 \<le> dec_codeBitsWidth ?s" "dec_codeBitsWidth ?s \<le> 12"
    "dec_output ?s = ([], int (length ([] :: byte list)))"
    by (simp_all add: dec_init_def BitStreamReader_init_at StartBits_def)
  from dec_loop_total [OF cov s, of "sint N"] f
  obtain p' out' where p': "dec_bitStream f = reader_at buf (sint nb) (sint n') p'"
    "int p' \<le> max 0 (sint n')" "dec_output f = (out', int (length out'))"
    "int (length out') \<le> max (sint N) (int (length ([] :: byte list)))"
    "sint n' \<le> int p' \<or> sint N \<le> int (length out')"
    by auto
  have "numBitsRead (dec_bitStream f) \<le> uint n'" using p'(1,2) sn(2) by (simp add: reader_at_def)
  moreover have "int (length (fst (dec_output f))) \<le> max 0 (sint N)" using p'(3,4) by simp
  moreover have "isEndOfStream (dec_bitStream f) \<or> sint N \<le> int (length (fst (dec_output f)))"
    using p'(1,3,5) by (auto simp: isEndOfStream_at)
  moreover have "lzwDecode buf nb n' N =
                     Some (Inr (map Some (fst (dec_output f))
                                @ replicate (unat N - length (fst (dec_output f))) None))"
    using f by (simp add: lzwDecode_def)
  ultimately show ?thesis using f by blast
qed

theorem C7_truncated_input_witness:
  "\<exists>buf nb n. lzwEncode [128] = Inr (buf, nb, n) \<and> 7 \<le> n
      \<and> (\<exists>f. dec_loop (sint (1 :: 32 word)) (dec_init buf nb 7) = Some (Inr f)
           \<and> lzwDecode buf nb 7 1 =
               Some (Inr (map Some (fst (dec_output f))
                          @ replicate (unat (1 :: 32 word) - length (fst (dec_output f))) None))
           \<and> numBitsRead (dec_bitStream f) \<le> uint (7 :: 32 word)
           \<and> int (length (fst (dec_output f))) \<le> max 0 (sint (1 :: 32 word))
           \<and> (isEndOfStream (dec_bitStream f) \<or> sint (1 :: 32 word) \<le> int (length (fst (dec_output f)))))"
proof -
  have "(case lzwEncode [128] of Inl e \<Rightarrow> False | Inr (buf, nb, n) \<Rightarrow> n = 9)" by code_simp
  then obtain buf nb where e: "lzwEncode [128] = Inr (buf, nb, 9)"
    by (auto split: sum.splits)
  have le: "(7 :: 32 word) \<le> 9" by simp
  from C7_truncated_input [OF e le, of 1] e le show ?thesis by blast
qed

text \<open>
  C7 (counterexample). With 7 of the 9 bits of the stream for the single byte 128, the
  decoder writes the one byte expected, the byte 0; with 26 of the 27 bits of the stream
  for \<open>aab\<close> it writes all three bytes. Neither result is shorter than expected.
\<close>

theorem C7_counterexample:
  "(\<exists>buf nb. lzwEncode [128] = Inr (buf, nb, 9) \<and> lzwDecode buf nb 7 1 = Some (Inr [Some 0]))
   \<and> (\<exists>buf nb. lzwEncode [97, 97, 98] = Inr (buf, nb, 27)
          \<and> lzwDecode buf nb 26 3 = Some (Inr [Some 97, Some 97, Some 98]))"
proof -
  have a: "(case lzwEncode [128] of Inl e \<Rightarrow> False
            | Inr (buf, nb, n) \<Rightarrow> n = 9 \<and> lzwDecode buf nb 7 1 = Some (Inr [Some 0]))"
    by code_simp
  have b: "(case lzwEncode [97, 97, 98] of Inl e \<Rightarrow> False
            | Inr (buf, nb, n) \<Rightarrow> n = 27 \<and> lzwDecode buf nb 26 3 = Some (Inr [Some 97, Some 97, Some 98]))"
    by code_simp
  from a b show ?thesis by (auto split: sum.splits)
qed

subsection \<open>The passes of the decoder with less room\<close>

lemma dec_trace_stop:
  assumes "\<not> isEndOfStream (dec_bitStream s)" "dec_step cap s = Inr (False, s1)"
  shows "dec_trace cap s = Some (Inr [s1])"
  using assms by (subst dec_trace.simps) simp

lemma dec_trace_eos:
  assumes "dec_trace cap s = Some (Inr tr)" "isEndOfStream (dec_bitStream s)"
  shows "tr = []"
  using assms dec_trace_end [OF assms(2), of cap] by simp

text \<open>
  With less room for the output the decoder makes the same passes until one does not fit;
  it leaves the loop in that pass, after the code is read and with the dictionary
  unchanged. So the states before its last are a prefix of those it goes through with more
  room, all of them if it gets to the end of the stream, and it holds no dictionary that it
  does not hold with more room.
\<close>

lemma dec_trace_cap:
  assumes "cap1 \<le> cap2"
    and "dec_trace cap2 s = Some (Inr tr2)" "dec_output s = (out, int (length out))"
  shows "\<exists>tr1. dec_trace cap1 s = Some (Inr tr1)
           \<and> (\<forall>st \<in> set tr1. \<exists>st2 \<in> set (s # tr2). dec_dictionary st = dec_dictionary st2)
           \<and> (\<exists>k. butlast tr1 = take k (butlast tr2))
           \<and> (isEndOfStream (dec_bitStream (last (s # tr1))) \<longrightarrow> butlast tr1 = butlast tr2)"
  using assms(2-)
proof (induction tr2 arbitrary: s out)
  case Nil
  from dec_trace_Nil [OF Nil(1)] have "dec_trace cap1 s = Some (Inr [])" by (rule dec_trace_end)
  then show ?case by simp
next
  case (Cons a tr)
  from dec_trace_Cons [OF Cons.prems(1)]
  obtain c where ne: "\<not> isEndOfStream (dec_bitStream s)"
    and st: "dec_step cap2 s = Inr (c, a)"
    and c: "if c then dec_trace cap2 a = Some (Inr tr) else tr = []" by blast
  from dec_step_bytes [OF st Cons.prems(2)]
  obtain bs t u where t: "dec_output t = (out @ bs, int (length (out @ bs)))"
    and u: "dec_dictionary u = dec_dictionary s" "dec_bitStream u = dec_bitStream t"
    and stc: "\<And>cap. dec_step cap s =
                 Inr (if int (length out + length bs) \<le> cap then (True, t)
                      else (False, u\<lparr>dec_output :=
                              (out @ take (nat (cap - int (length out))) bs,
                               int (length (out @ take (nat (cap - int (length out))) bs)))\<rparr>))"
    by blast
  show ?case
  proof (cases "int (length out + length bs) \<le> cap1")
    case True
    then have "int (length out + length bs) \<le> cap2" using assms(1) by simp
    then have ca: "c" "a = t" using st stc [of cap2] by simp_all
    have tr2: "dec_trace cap2 t = Some (Inr tr)" using c ca by simp
    from Cons.IH [OF tr2 t]
    obtain tr1 k where tr1: "dec_trace cap1 t = Some (Inr tr1)"
      "\<forall>st \<in> set tr1. \<exists>st2 \<in> set (t # tr). dec_dictionary st = dec_dictionary st2"
      "butlast tr1 = take k (butlast tr)"
      "isEndOfStream (dec_bitStream (last (t # tr1))) \<longrightarrow> butlast tr1 = butlast tr"
      by blast
    have "dec_step cap1 s = Inr (True, t)" using True stc [of cap1] by simp
    from dec_trace_step [OF ne this tr1(1)]
    have d1: "dec_trace cap1 s = Some (Inr (t # tr1))" .
    have dict: "\<forall>st \<in> set (t # tr1). \<exists>st2 \<in> set (s # a # tr). dec_dictionary st = dec_dictionary st2"
      using tr1(2) ca by auto
    have empty: "tr1 = []" if "tr = []"
    proof -
      from dec_trace_Nil [OF tr2 [unfolded that]] have "isEndOfStream (dec_bitStream t)" .
      from dec_trace_eos [OF tr1(1) this] show ?thesis .
    qed
    have pre: "\<exists>k. butlast (t # tr1) = take k (butlast (a # tr))"
    proof (cases "tr1 = []")
      case True
      then show ?thesis by (intro exI [of _ 0]) simp
    next
      case False
      then have "tr \<noteq> []" using empty by blast
      then show ?thesis using False tr1(3) ca by (intro exI [of _ "Suc k"]) simp
    qed
    have eos: "butlast (t # tr1) = butlast (a # tr)"
      if e: "isEndOfStream (dec_bitStream (last (s # t # tr1)))"
    proof (cases "tr1 = []")
      case True
      then have "isEndOfStream (dec_bitStream t)" using e by simp
      from dec_trace_eos [OF tr2 this] show ?thesis using True ca by simp
    next
      case False
      then have "tr \<noteq> []" using empty by blast
      moreover have "butlast tr1 = butlast tr" using tr1(4) e by simp
      ultimately show ?thesis using False ca by simp
    qed
    show ?thesis
    proof (intro exI [of _ "t # tr1"] conjI impI)
      show "dec_trace cap1 s = Some (Inr (t # tr1))" using d1 .
      show "\<forall>st \<in> set (t # tr1). \<exists>st2 \<in> set (s # a # tr). dec_dictionary st = dec_dictionary st2"
        using dict .
      show "\<exists>k. butlast (t # tr1) = take k (butlast (a # tr))" using pre .
      show "butlast (t # tr1) = butlast (a # tr)"
        if "isEndOfStream (dec_bitStream (last (s # t # tr1)))" using eos [OF that] .
    qed
  next
    case False
    define u' where "u' = u\<lparr>dec_output :=
                              (out @ take (nat (cap1 - int (length out))) bs,
                               int (length (out @ take (nat (cap1 - int (length out))) bs)))\<rparr>"
    have "dec_step cap1 s = Inr (False, u')" using False stc [of cap1] by (simp add: u'_def)
    from dec_trace_stop [OF ne this] have d1: "dec_trace cap1 s = Some (Inr [u'])" .
    have du: "dec_dictionary u' = dec_dictionary s" "dec_bitStream u' = dec_bitStream t"
      using u by (simp_all add: u'_def)
    have eos: "butlast [u'] = butlast (a # tr)" if e: "isEndOfStream (dec_bitStream (last (s # [u'])))"
    proof (cases c)
      case True
      then have "a = t \<or> \<not> int (length out + length bs) \<le> cap2" using st stc [of cap2] by auto
      then have at: "a = t" using True st stc [of cap2] by (cases "int (length out + length bs) \<le> cap2") simp_all
      have "isEndOfStream (dec_bitStream t)" using e du(2) by simp
      moreover have "dec_trace cap2 t = Some (Inr tr)" using c True at by simp
      ultimately have "tr = []" using dec_trace_eos by blast
      then show ?thesis by simp
    next
      case False
      then show ?thesis using c by simp
    qed
    show ?thesis
    proof (intro exI [of _ "[u']"] conjI impI)
      show "dec_trace cap1 s = Some (Inr [u'])" using d1 .
      show "\<forall>st \<in> set [u']. \<exists>st2 \<in> set (s # a # tr). dec_dictionary st = dec_dictionary st2"
        using du(1) by simp
      show "\<exists>k. butlast [u'] = take k (butlast (a # tr))" by (intro exI [of _ 0]) simp
      show "butlast [u'] = butlast (a # tr)"
        if "isEndOfStream (dec_bitStream (last (s # [u'])))" using eos [OF that] .
    qed
  qed
qed

text \<open>
  The decoder on a stream of the encoder, for any capacity of the output: its passes, the
  dictionaries it holds, and its trajectory against that of the encoder.
\<close>

lemma decode_encoded_any:
  assumes "lzwEncode S = Inr (buf, nb, n)"
  shows "\<exists>tr. dec_trace cap (dec_init buf nb n) = Some (Inr tr)
          \<and> (\<forall>st \<in> set (dec_init buf nb n # tr). dict_wf (dec_dictionary st))
          \<and> (\<exists>k. map dec_point (butlast tr) = take k (enc_trajectory S (enc_init writer0)))
          \<and> (isEndOfStream (dec_bitStream (last (dec_init buf nb n # tr))) \<longrightarrow>
                map dec_point (butlast tr) = enc_trajectory S (enc_init writer0))
          \<and> (int (length S) \<le> cap \<longrightarrow> isEndOfStream (dec_bitStream (last (dec_init buf nb n # tr))))"
proof -
  let ?s = "dec_init buf nb n"
  define C where "C = max cap (int (length S))"
  from decode_encoded [OF assms, of C]
  obtain tr2 where tr2: "dec_trace C ?s = Some (Inr tr2)"
    "map dec_point (butlast tr2) = enc_trajectory S (enc_init writer0)"
    "\<forall>st \<in> set (?s # tr2). dict_wf (dec_dictionary st)"
    "isEndOfStream (dec_bitStream (last (?s # tr2)))"
    by (auto simp: C_def)
  have o: "dec_output ?s = ([], int (length ([] :: byte list)))" by (simp add: dec_init_def)
  have "cap \<le> C" by (simp add: C_def)
  from dec_trace_cap [OF this tr2(1) o]
  obtain tr k where tr: "dec_trace cap ?s = Some (Inr tr)"
    "\<forall>st \<in> set tr. \<exists>st2 \<in> set (?s # tr2). dec_dictionary st = dec_dictionary st2"
    "butlast tr = take k (butlast tr2)"
    "isEndOfStream (dec_bitStream (last (?s # tr))) \<longrightarrow> butlast tr = butlast tr2"
    by blast
  have wf: "dict_wf (dec_dictionary st)" if "st \<in> set (?s # tr)" for st
  proof (cases "st = ?s")
    case True
    then show ?thesis using tr2(3) by simp
  next
    case False
    then have "st \<in> set tr" using that by simp
    with tr(2) obtain st2 where "st2 \<in> set (?s # tr2)" "dec_dictionary st = dec_dictionary st2"
      by blast
    then show ?thesis using tr2(3) by auto
  qed
  have pre: "map dec_point (butlast tr) = take k (enc_trajectory S (enc_init writer0))"
    unfolding tr(3) tr2(2) [symmetric] by (rule take_map [symmetric])
  have eq: "map dec_point (butlast tr) = enc_trajectory S (enc_init writer0)"
    if "isEndOfStream (dec_bitStream (last (?s # tr)))" using that tr(4) tr2(2) by simp
  have full: "isEndOfStream (dec_bitStream (last (?s # tr)))" if "int (length S) \<le> cap"
  proof -
    have "C = cap" using that by (simp add: C_def)
    then have "tr = tr2" using tr(1) tr2(1) by simp
    then show ?thesis using tr2(4) by simp
  qed
  show ?thesis
  proof (intro exI [of _ tr] conjI impI ballI)
    show "dec_trace cap ?s = Some (Inr tr)" using tr(1) .
    show "dict_wf (dec_dictionary st)" if "st \<in> set (?s # tr)" for st using wf [OF that] .
    show "\<exists>k. map dec_point (butlast tr) = take k (enc_trajectory S (enc_init writer0))"
      using pre by blast
    show "map dec_point (butlast tr) = enc_trajectory S (enc_init writer0)"
      if "isEndOfStream (dec_bitStream (last (?s # tr)))" using eq [OF that] .
    show "isEndOfStream (dec_bitStream (last (?s # tr)))" if "int (length S) \<le> cap"
      using full [OF that] .
  qed
qed

subsection \<open>The decoder in step with the encoder\<close>

text \<open>
  C8. In every dictionary the decoder holds while it decodes a stream that \<open>lzwEncode\<close>
  returned, whatever the expected size, each code below the dictionary size has a parent
  chain that ends at a root entry after at most 4096 steps: \<open>walk\<close> returns its bytes last
  byte first, without a fault, and \<open>outputSequence\<close> emits them first byte first, as far as
  the room left allows, and reports the first byte.
\<close>

theorem C8_chain_walk:
  assumes "lzwEncode S = Inr (buf, nb, n)"
  shows "\<exists>tr. dec_trace (sint N) (dec_init buf nb n) = Some (Inr tr)
           \<and> (\<forall>st \<in> set (dec_init buf nb n # tr).
                \<forall>c. 0 \<le> c \<and> c < dsize (dec_dictionary st) \<longrightarrow>
                  (\<exists>bs. chain (dec_dictionary st) c bs \<and> bs \<noteq> [] \<and> length bs \<le> 4096
                     \<and> walk (dec_dictionary st) c [] = Inr (rev bs)
                     \<and> (\<forall>cap out. outputSequence (dec_dictionary st) c cap (out, int (length out)) =
                          Inr (int (length out + length bs) \<le> cap,
                               (out @ take (nat (cap - int (length out))) bs,
                                int (length (out @ take (nat (cap - int (length out))) bs))),
                               uint (hd bs)))))"
proof -
  have walks: "\<exists>bs. chain d c bs \<and> bs \<noteq> [] \<and> length bs \<le> 4096
            \<and> walk d c [] = Inr (rev bs)
            \<and> (\<forall>cap out. outputSequence d c cap (out, int (length out)) =
                        Inr (int (length out + length bs) \<le> cap,
                             (out @ take (nat (cap - int (length out))) bs,
                              int (length (out @ take (nat (cap - int (length out))) bs))),
                             uint (hd bs)))"
    if wf: "dict_wf d" and c: "0 \<le> c" "c < dsize d" for d c
  proof -
    have c4: "c < 4096" using wf c(2) by (simp add: dict_wf_def)
    from chain_exists [OF wf c] obtain bs where bs: "chain d c bs" by blast
    have ne: "bs \<noteq> []" using chain_nonempty [OF bs] .
    have len: "int (length bs) \<le> 4096" using chain_length [OF bs c(1)] c4 by simp
    then have w: "walk d c [] = Inr (rev bs)" using walk_chain [OF bs, of "[]"] by simp
    have "outputSequence d c cap (out, int (length out)) =
            Inr (int (length out + length bs) \<le> cap,
                 (out @ take (nat (cap - int (length out))) bs,
                  int (length (out @ take (nat (cap - int (length out))) bs))),
                 uint (hd bs))" for cap out
      unfolding outputSequence_chain [OF bs c(1) c4] by (simp add: min_def) linarith
    then show ?thesis using bs ne len w by (intro exI [of _ bs]) simp
  qed
  from decode_encoded_any [OF assms, of "sint N"]
  obtain tr where tr: "dec_trace (sint N) (dec_init buf nb n) = Some (Inr tr)"
    "\<forall>st \<in> set (dec_init buf nb n # tr). dict_wf (dec_dictionary st)" by blast
  show ?thesis
  proof (intro exI [of _ tr] conjI ballI allI impI)
    show "dec_trace (sint N) (dec_init buf nb n) = Some (Inr tr)" using tr(1) .
  next
    fix st c
    assume "st \<in> set (dec_init buf nb n # tr)" and "0 \<le> c \<and> c < dsize (dec_dictionary st)"
    then show "\<exists>bs. chain (dec_dictionary st) c bs \<and> bs \<noteq> [] \<and> length bs \<le> 4096
                   \<and> walk (dec_dictionary st) c [] = Inr (rev bs)
                   \<and> (\<forall>cap out. outputSequence (dec_dictionary st) c cap (out, int (length out)) =
                        Inr (int (length out + length bs) \<le> cap,
                             (out @ take (nat (cap - int (length out))) bs,
                              int (length (out @ take (nat (cap - int (length out))) bs))),
                             uint (hd bs)))"
      using tr(2) by (intro walks) auto
  qed
qed

theorem C8_chain_walk_witness:
  "\<exists>buf nb n tr. lzwEncode [97, 98, 97, 98, 97, 98, 97] = Inr (buf, nb, n)
           \<and> dec_trace (sint (7 :: 32 word)) (dec_init buf nb n) = Some (Inr tr)
           \<and> (\<forall>st \<in> set (dec_init buf nb n # tr).
                \<forall>c. 0 \<le> c \<and> c < dsize (dec_dictionary st) \<longrightarrow>
                  (\<exists>bs. chain (dec_dictionary st) c bs \<and> bs \<noteq> [] \<and> length bs \<le> 4096
                     \<and> walk (dec_dictionary st) c [] = Inr (rev bs)
                     \<and> (\<forall>cap out. outputSequence (dec_dictionary st) c cap (out, int (length out)) =
                          Inr (int (length out + length bs) \<le> cap,
                               (out @ take (nat (cap - int (length out))) bs,
                                int (length (out @ take (nat (cap - int (length out))) bs))),
                               uint (hd bs)))))"
proof -
  have "12 * (length [97 :: byte, 98, 97, 98, 97, 98, 97] + 1) < 2 ^ 30" by simp
  from lzwEncode_total [OF this]
  obtain buf nb n where e: "lzwEncode [97, 98, 97, 98, 97, 98, 97] = Inr (buf, nb, n)" by blast
  from C8_chain_walk [OF e, of 7] e show ?thesis by blast
qed

text \<open>
  C2. On a stream that \<open>lzwEncode\<close> returned for \<open>S\<close>, and for any expected size, the loop of
  \<open>lzwDecode\<close> returns, and the dictionary size and code width it has at the end of each of
  its passes but the last are, pass for pass, those the encoder has after each code it
  emits in its loop: a prefix of the trajectory of the encoder, and the whole of it when the
  decoder gets to the end of the stream, as it does with room for the whole of \<open>S\<close>. The
  last pass reads the code the encoder writes after its loop, or is the one that finds the
  output full.
\<close>

theorem C2_same_trajectory:
  assumes "lzwEncode S = Inr (buf, nb, n)"
  shows "\<exists>w0 tr. BitStreamWriter_default = Inr w0
           \<and> dec_trace (sint N) (dec_init buf nb n) = Some (Inr tr)
           \<and> dec_loop (sint N) (dec_init buf nb n) = Some (Inr (last (dec_init buf nb n # tr)))
           \<and> (\<exists>k. map dec_point (butlast tr) = take k (enc_trajectory S (enc_init w0)))
           \<and> (isEndOfStream (dec_bitStream (last (dec_init buf nb n # tr))) \<longrightarrow>
                 map dec_point (butlast tr) = enc_trajectory S (enc_init w0))
           \<and> (int (length S) \<le> sint N \<longrightarrow>
                 isEndOfStream (dec_bitStream (last (dec_init buf nb n # tr))))"
proof -
  from decode_encoded_any [OF assms, of "sint N"]
  obtain tr where tr: "dec_trace (sint N) (dec_init buf nb n) = Some (Inr tr)"
    "\<exists>k. map dec_point (butlast tr) = take k (enc_trajectory S (enc_init writer0))"
    "isEndOfStream (dec_bitStream (last (dec_init buf nb n # tr))) \<longrightarrow>
       map dec_point (butlast tr) = enc_trajectory S (enc_init writer0)"
    "int (length S) \<le> sint N \<longrightarrow> isEndOfStream (dec_bitStream (last (dec_init buf nb n # tr)))"
    by blast
  show ?thesis
    using BitStreamWriter_default_eq tr dec_loop_of_trace [OF tr(1)]
    by (intro exI [of _ writer0] exI [of _ tr] conjI)
qed

theorem C2_same_trajectory_witness:
  "\<exists>buf nb n w0 tr. lzwEncode [97, 97, 98, 97, 97, 98] = Inr (buf, nb, n)
           \<and> BitStreamWriter_default = Inr w0
           \<and> dec_trace (sint (6 :: 32 word)) (dec_init buf nb n) = Some (Inr tr)
           \<and> dec_loop (sint (6 :: 32 word)) (dec_init buf nb n) =
               Some (Inr (last (dec_init buf nb n # tr)))
           \<and> isEndOfStream (dec_bitStream (last (dec_init buf nb n # tr)))
           \<and> map dec_point (butlast tr) = enc_trajectory [97, 97, 98, 97, 97, 98] (enc_init w0)
           \<and> enc_trajectory [97, 97, 98, 97, 97, 98] (enc_init w0) =
               [(256, 9), (257, 9), (258, 9), (259, 9)]"
proof -
  have "12 * (length [97 :: byte, 97, 98, 97, 97, 98] + 1) < 2 ^ 30" by simp
  from lzwEncode_total [OF this]
  obtain buf nb n where e: "lzwEncode [97, 97, 98, 97, 97, 98] = Inr (buf, nb, n)" by blast
  from C2_same_trajectory [OF e, of 6]
  obtain w0 tr where t: "BitStreamWriter_default = Inr w0"
    "dec_trace (sint (6 :: 32 word)) (dec_init buf nb n) = Some (Inr tr)"
    "dec_loop (sint (6 :: 32 word)) (dec_init buf nb n) = Some (Inr (last (dec_init buf nb n # tr)))"
    "isEndOfStream (dec_bitStream (last (dec_init buf nb n # tr))) \<longrightarrow>
       map dec_point (butlast tr) = enc_trajectory [97, 97, 98, 97, 97, 98] (enc_init w0)"
    "int (length [97 :: byte, 97, 98, 97, 97, 98]) \<le> sint (6 :: 32 word) \<longrightarrow>
       isEndOfStream (dec_bitStream (last (dec_init buf nb n # tr)))"
    by blast
  have eos: "isEndOfStream (dec_bitStream (last (dec_init buf nb n # tr)))" using t(5) by simp
  have w0: "w0 = writer0" using t(1) unfolding BitStreamWriter_default_eq by simp
  have tj: "enc_trajectory [97, 97, 98, 97, 97, 98] (enc_init writer0) =
              [(256, 9), (257, 9), (258, 9), (259, 9)]" by code_simp
  show ?thesis
    using e t(1,2,3) eos t(4) tj w0
    by (intro exI [of _ buf] exI [of _ nb] exI [of _ n] exI [of _ w0] exI [of _ tr]) simp
qed

subsection \<open>Base64\<close>

declare b64_loop.simps [simp del]

lemma B64_INDEX_length: "length B64_INDEX = 256"
  by (simp add: B64_INDEX_def)

lemma B64_INDEX_range: "i < 256 \<Longrightarrow> 0 \<le> B64_INDEX ! i \<and> B64_INDEX ! i < 64"
proof -
  have "\<forall>v \<in> set B64_INDEX. 0 \<le> v \<and> v < 64"
    by (simp add: B64_INDEX_def)
  then show "i < 256 \<Longrightarrow> 0 \<le> B64_INDEX ! i \<and> B64_INDEX ! i < 64"
    using B64_INDEX_length nth_mem by metis
qed

lemma schar_range: "- 128 \<le> schar c \<and> schar c < 128"
  using sint_range_size [of "of_char c :: 8 word"] by (simp add: schar_def word_size)

lemma b64_index_ok: "0 \<le> schar c \<Longrightarrow> b64_index c = Inr (sextet c)"
  using schar_range [of c] by (simp add: b64_index_def sextet_def)

lemma schar_NUL: "schar (CHR 0x00) = 0"
  by (simp add: schar_def)

lemma b64_loop_Nil: "b64_loop r [] out = Inr out"
  by (subst b64_loop.simps) (simp add: char_at_def)

lemma b64_loop_single: "b64_loop r [c] out = Inr out"
  by (subst b64_loop.simps) (simp add: char_at_def)

lemma b64_loop_skip:
  assumes "c \<noteq> CHR 0x00" "schar c \<le> 0x20" "rest \<noteq> []" "hd rest \<noteq> CHR 0x00"
  shows "b64_loop r (c # rest) out = b64_loop r rest out"
  using assms by (subst b64_loop.simps) (cases rest; simp add: char_at_def)


lemma sextet_bits:
  "\<forall>v \<in> set [0..63]. drop_bit 4 (v AND 0x30) = v div 16 \<and> push_bit 4 (v AND 0x0f) = 16 * (v mod 16)
      \<and> drop_bit 2 (v AND 0x3c) = v div 4 \<and> push_bit 6 (v AND 0x03) = 64 * (v mod 4)
      \<and> push_bit 2 v = 4 * (v::int)"
  by code_simp

lemma sextet_range: "0 \<le> schar c \<Longrightarrow> sextet c \<in> set [0..63]"
proof -
  assume "0 \<le> schar c"
  then have "nat (schar c) < 256" using schar_range [of c] by linarith
  from B64_INDEX_range [OF this] show ?thesis by (auto simp: sextet_def)
qed

lemma put_char_ok: "length out < r \<Longrightarrow> put_char r v out = Inr (out @ [char_of v])"
  by (simp add: put_char_def)

lemma schar_marks: "schar (CHR ''='') = 61" "schar (CHR ''.'') = 46"
  by (simp_all add: schar_def)

lemma b64_loop_stop2:
  assumes "0x20 < schar c0" "c1 \<noteq> CHR 0x00" "0 \<le> schar c1" "length out < r"
    and "rest = [] \<or> hd rest = CHR 0x00 \<or> hd rest = CHR ''='' \<or> hd rest = CHR ''.''"
  shows "b64_loop r (c0 # c1 # rest) out = Inr (out @ [byte1 c0 c1])"
proof -
  have c0: "c0 \<noteq> CHR 0x00" "0 \<le> schar c0" using assms(1) schar_NUL by auto
  have b: "push_bit 2 (sextet c0) + drop_bit 4 (sextet c1 AND 0x30) = 4 * sextet c0 + sextet c1 div 16"
    using sextet_bits sextet_range [OF c0(2)] sextet_range [OF assms(3)] by metis
  show ?thesis
    using assms c0 b
    by (subst b64_loop.simps)
       (cases rest; cases "tl rest"; auto simp: char_at_def b64_index_ok put_char_ok byte1_def schar_NUL)
qed

lemma b64_loop_stop3:
  assumes "0x20 < schar c0" "c1 \<noteq> CHR 0x00" "0 \<le> schar c1" "length out + 1 < r"
    and "c2 \<noteq> CHR 0x00" "0 \<le> schar c2" "c2 \<noteq> CHR ''=''" "c2 \<noteq> CHR ''.''"
    and "rest = [] \<or> hd rest = CHR 0x00 \<or> hd rest = CHR ''='' \<or> hd rest = CHR ''.''"
  shows "b64_loop r (c0 # c1 # c2 # rest) out = Inr (out @ [byte1 c0 c1, byte2 c1 c2])"
proof -
  have c0: "c0 \<noteq> CHR 0x00" "0 \<le> schar c0" using assms(1) schar_NUL by auto
  have b: "push_bit 2 (sextet c0) + drop_bit 4 (sextet c1 AND 0x30) = 4 * sextet c0 + sextet c1 div 16"
    "push_bit 4 (sextet c1 AND 0x0f) + drop_bit 2 (sextet c2 AND 0x3c) = 16 * (sextet c1 mod 16) + sextet c2 div 4"
    using sextet_bits sextet_range [OF c0(2)] sextet_range [OF assms(3)] sextet_range [OF assms(6)]
    by metis+
  show ?thesis
    using assms c0 b
    by (subst b64_loop.simps)
       (cases rest; auto simp: char_at_def b64_index_ok put_char_ok byte1_def byte2_def schar_NUL schar_marks)
qed

lemma b64_loop_group:
  assumes "0x20 < schar c0" "c1 \<noteq> CHR 0x00" "0 \<le> schar c1" "length out + 2 < r"
    and "c2 \<noteq> CHR 0x00" "0 \<le> schar c2" "c2 \<noteq> CHR ''=''" "c2 \<noteq> CHR ''.''"
    and "c3 \<noteq> CHR 0x00" "0 \<le> schar c3" "c3 \<noteq> CHR ''=''" "c3 \<noteq> CHR ''.''"
  shows "b64_loop r (c0 # c1 # c2 # c3 # rest) out =
         b64_loop r rest (out @ [byte1 c0 c1, byte2 c1 c2, byte3 c2 c3])"
proof -
  have c0: "c0 \<noteq> CHR 0x00" "0 \<le> schar c0" using assms(1) schar_NUL by auto
  have b: "push_bit 2 (sextet c0) + drop_bit 4 (sextet c1 AND 0x30) = 4 * sextet c0 + sextet c1 div 16"
    "push_bit 4 (sextet c1 AND 0x0f) + drop_bit 2 (sextet c2 AND 0x3c) = 16 * (sextet c1 mod 16) + sextet c2 div 4"
    "push_bit 6 (sextet c2 AND 0x03) + sextet c3 = 64 * (sextet c2 mod 4) + sextet c3"
    using sextet_bits sextet_range [OF c0(2)] sextet_range [OF assms(3)] sextet_range [OF assms(6)]
    by metis+
  show ?thesis
    using assms c0 b
    by (subst b64_loop.simps)
       (auto simp: char_at_def b64_index_ok put_char_ok byte1_def byte2_def byte3_def schar_NUL)
qed

lemma b64_loop_NUL1: "b64_loop r (CHR 0x00 # rest) out = Inr out"
  by (subst b64_loop.simps) (simp add: char_at_def)

lemma b64_loop_NUL2: "b64_loop r (c # CHR 0x00 # rest) out = Inr out"
  by (subst b64_loop.simps) (simp add: char_at_def)

text \<open>On ASCII text and a buffer with room for three bytes per started group of four
  characters, the loop ends without a fault and stays below the capacity.\<close>

lemma ceil4_skip: "(n + 3) div 4 \<le> (Suc n + 3) div (4::nat)"
  by (rule div_le_mono) simp

lemma ceil4_group: "(Suc (Suc (Suc (Suc n))) + 3) div (4::nat) = Suc ((n + 3) div 4)"
  by simp

lemma b64_loop_total:
  assumes "\<forall>c \<in> set enc. 0 \<le> schar c"
    and "length out + 3 * ((length enc + 3) div 4) < r"
  shows "\<exists>out'. b64_loop r enc out = Inr out' \<and> length out' \<le> length out + 3 * ((length enc + 3) div 4)"
  using assms
proof (induction "length enc" arbitrary: enc out rule: less_induct)
  case less
  note IH = less.hyps and asc = less.prems(1) and cap = less.prems(2)
  show ?case
  proof (cases enc)
    case Nil
    then show ?thesis by (simp add: b64_loop_Nil)
  next
    case (Cons c0 enc1)
    note enc = this
    show ?thesis
    proof (cases enc1)
      case Nil
      with enc show ?thesis by (simp add: b64_loop_single)
    next
      case (Cons c1 enc2)
      note enc1 = this
      have a1: "0 \<le> schar c0" "0 \<le> schar c1" using asc enc enc1 by auto
      consider (z0) "c0 = CHR 0x00" | (z1) "c1 = CHR 0x00"
        | (skip) "c0 \<noteq> CHR 0x00" "c1 \<noteq> CHR 0x00" "schar c0 \<le> 0x20"
        | (grp) "c1 \<noteq> CHR 0x00" "0x20 < schar c0" by fastforce
      then show ?thesis
      proof cases
        case z0
        then show ?thesis by (simp add: enc b64_loop_NUL1)
      next
        case z1
        then show ?thesis by (simp add: enc enc1 b64_loop_NUL2)
      next
        case skip
        have st: "b64_loop r enc out = b64_loop r enc1 out"
          unfolding enc using skip enc1 by (intro b64_loop_skip) auto
        have "\<exists>out'. b64_loop r enc1 out = Inr out' \<and>
                length out' \<le> length out + 3 * ((length enc1 + 3) div 4)"
        proof (rule IH)
          show "length enc1 < length enc" using enc by simp
          show "\<forall>c\<in>set enc1. 0 \<le> schar c" using asc enc by simp
          show "length out + 3 * ((length enc1 + 3) div 4) < r"
            using cap ceil4_skip [of "length enc1"] unfolding enc by simp
        qed
        then show ?thesis using st ceil4_skip [of "length enc1"] unfolding enc by fastforce
      next
        case grp
        have cap1: "length out < r" using cap enc enc1 by simp
        show ?thesis
        proof (cases "enc2 = [] \<or> hd enc2 = CHR 0x00 \<or> hd enc2 = CHR ''='' \<or> hd enc2 = CHR ''.''")
          case True
          have "b64_loop r enc out = Inr (out @ [byte1 c0 c1])"
            unfolding enc enc1 using grp a1 cap1 True by (intro b64_loop_stop2) auto
          then show ?thesis using enc enc1 by simp
        next
          case False
          then obtain c2 enc3 where enc2: "enc2 = c2 # enc3" by (cases enc2) auto
          have c2: "c2 \<noteq> CHR 0x00" "c2 \<noteq> CHR ''=''" "c2 \<noteq> CHR ''.''" "0 \<le> schar c2"
            using False enc2 asc enc enc1 by auto
          have cap2: "length out + 1 < r" using cap enc enc1 enc2 by simp
          show ?thesis
          proof (cases "enc3 = [] \<or> hd enc3 = CHR 0x00 \<or> hd enc3 = CHR ''='' \<or> hd enc3 = CHR ''.''")
            case True
            have "b64_loop r enc out = Inr (out @ [byte1 c0 c1, byte2 c1 c2])"
              unfolding enc enc1 enc2 using grp a1 cap2 c2 True by (intro b64_loop_stop3) auto
            then show ?thesis using enc enc1 enc2 by simp
          next
            case False
            then obtain c3 enc4 where enc3: "enc3 = c3 # enc4" by (cases enc3) auto
            have c3: "c3 \<noteq> CHR 0x00" "c3 \<noteq> CHR ''=''" "c3 \<noteq> CHR ''.''" "0 \<le> schar c3"
              using False enc3 asc enc enc1 enc2 by auto
            have cap3: "length out + 2 < r" using cap enc enc1 enc2 enc3 by simp
            have st: "b64_loop r enc out = b64_loop r enc4 (out @ [byte1 c0 c1, byte2 c1 c2, byte3 c2 c3])"
              unfolding enc enc1 enc2 enc3 using grp a1 cap3 c2 c3 by (intro b64_loop_group) auto
            have "\<exists>out'. b64_loop r enc4 (out @ [byte1 c0 c1, byte2 c1 c2, byte3 c2 c3]) = Inr out' \<and>
                length out' \<le> length (out @ [byte1 c0 c1, byte2 c1 c2, byte3 c2 c3]) + 3 * ((length enc4 + 3) div 4)"
            proof (rule IH)
              show "length enc4 < length enc" using enc enc1 enc2 enc3 by simp
              show "\<forall>c\<in>set enc4. 0 \<le> schar c" using asc enc enc1 enc2 enc3 by simp
              show "length (out @ [byte1 c0 c1, byte2 c1 c2, byte3 c2 c3]) + 3 * ((length enc4 + 3) div 4) < r"
                using cap ceil4_group [of "length enc4"] unfolding enc enc1 enc2 enc3 by simp
            qed
            then show ?thesis using st ceil4_group [of "length enc4"] unfolding enc enc1 enc2 enc3 by fastforce
          qed
        qed
      qed
    qed
  qed
qed

lemma reserved_unat: "unat (b64_reserved len) = 3 * (1 + unat len div 4) + 1"
proof -
  have a: "unat (drop_bit 2 len) = unat len div 4"
    by (simp add: unat_drop_bit_eq drop_bit_eq_div unat_div)
  have b: "unat len < 2 ^ 64" using unsigned_less [of len, where ?'a = nat] by simp
  have c: "3 * (1 + unat len div 4) + 1 < (2::nat) ^ 64" using b by simp
  have "b64_reserved len = (word_of_nat (3 * (1 + unat len div 4) + 1) :: 64 word)"
    unfolding a [symmetric] b64_reserved_def by simp
  then have "unat (b64_reserved len) = (3 * (1 + unat len div 4) + 1) mod 2 ^ 64"
    by (simp only: unat_of_nat len_of_numeral_defs) simp
  then show ?thesis using c by simp
qed

lemma b64Decode_total:
  assumes "len \<noteq> 0" "\<forall>c \<in> set enc. 0 \<le> schar c" "length enc \<le> unat len"
  shows "\<exists>out. b64Decode (Some enc) len True True =
                 Inr (b64_reserved len, Some (b64_buffer (unat (b64_reserved len)) out))
               \<and> length out < unat (b64_reserved len)"
proof -
  let ?r = "unat (b64_reserved len)"
  have "(length enc + 3) div 4 \<le> (unat len + 3) div 4"
    using assms(3) by (intro div_le_mono) simp
  also have "\<dots> \<le> 1 + unat len div 4" by simp
  finally have cap: "length ([]::string) + 3 * ((length enc + 3) div 4) < ?r"
    by (simp add: reserved_unat)
  from b64_loop_total [OF assms(2) this]
  obtain out where o: "b64_loop ?r enc [] = Inr out" "length out \<le> 3 * ((length enc + 3) div 4)"
    by auto
  have "length out < ?r"
    using o(2) cap by simp
  then show ?thesis using o(1) assms(1) by (auto simp: b64Decode_def Let_def)
qed

text \<open>
  C10 (as amended). With a null \<open>encoded\<close>, a null \<open>decoded\<close> or \<open>len = 0\<close>, \<open>b64Decode\<close> returns
  0 and assigns no buffer; so it does when the allocation fails. In every other call, whatever
  it returns is the constant \<open>3 * (1 + (len >> 2)) + 1\<close>, the size of the buffer; on ASCII
  text of at most \<open>len\<close> characters it does return, and fewer bytes than that were decoded.
\<close>

theorem C10_b64Decode_returned_size:
  "b64Decode None len decoded ok = Inr (0, None)
   \<and> b64Decode encoded len False ok = Inr (0, None)
   \<and> b64Decode encoded 0 decoded ok = Inr (0, None)
   \<and> b64Decode encoded len decoded False = Inr (0, None)
   \<and> b64_reserved len = 3 * (1 + drop_bit 2 len) + 1
   \<and> (len \<noteq> 0 \<and> b64Decode (Some enc) len True True = Inr (n, buf) \<longrightarrow> n = b64_reserved len)
   \<and> (len \<noteq> 0 \<and> (\<forall>c \<in> set enc. 0 \<le> schar c) \<and> length enc \<le> unat len
        \<longrightarrow> (\<exists>out. b64Decode (Some enc) len True True =
                     Inr (b64_reserved len, Some (b64_buffer (unat (b64_reserved len)) out))
                   \<and> length out < unat (b64_reserved len)))"
proof (intro conjI impI)
  show "b64Decode None len decoded ok = Inr (0, None)"
    by (simp add: b64Decode_def)
  show "b64Decode encoded len False ok = Inr (0, None)"
    by (simp add: b64Decode_def split: option.split)
  show "b64Decode encoded 0 decoded ok = Inr (0, None)"
    by (simp add: b64Decode_def split: option.split)
  show "b64Decode encoded len decoded False = Inr (0, None)"
    by (simp add: b64Decode_def Let_def split: option.split)
  show "b64_reserved len = 3 * (1 + drop_bit 2 len) + 1"
    by (fact b64_reserved_def)
next
  assume "len \<noteq> 0 \<and> b64Decode (Some enc) len True True = Inr (n, buf)"
  then show "n = b64_reserved len"
    by (auto simp: b64Decode_def Let_def split: sum.splits)
next
  assume "len \<noteq> 0 \<and> (\<forall>c \<in> set enc. 0 \<le> schar c) \<and> length enc \<le> unat len"
  then show "\<exists>out. b64Decode (Some enc) len True True =
                     Inr (b64_reserved len, Some (b64_buffer (unat (b64_reserved len)) out))
                   \<and> length out < unat (b64_reserved len)"
    using b64Decode_total by blast
qed

theorem C10_b64Decode_returned_size_witness:
  "b64Decode None 4 True True = Inr (0, None)
   \<and> (\<exists>out. b64Decode (Some ''QUI='') 4 True True =
                Inr (b64_reserved 4, Some (b64_buffer (unat (b64_reserved 4)) out))
              \<and> length out < unat (b64_reserved 4))"
  using C10_b64Decode_returned_size [where len = 4 and decoded = True and ok = True
      and encoded = "Some ''QUI=''" and enc = "''QUI=''" and n = 7 and buf = None]
  by (auto simp: schar_def)

text \<open>
  C10 as stated fails where the allocation fails: the call has non-null pointers and a
  non-zero \<open>len\<close>, and returns 0, not \<open>3 * (1 + (len >> 2)) + 1 = 7\<close>.
\<close>

theorem C10_counterexample:
  "b64Decode (Some ''QUJD'') 4 True False = Inr (0, None)
   \<and> 3 * (1 + drop_bit 2 (4 :: 64 word)) + 1 = (7 :: 64 word)"
  by (simp add: b64Decode_def b64_reserved_def)


text \<open>
  C9 (as amended). \<open>b64Decode\<close> skips a byte of value at most 0x20 only where a group of
  four characters would start. Inside a group every character is decoded through the
  six-bit table, whitespace included; decoding stops after the first byte of the group when
  the third character is missing, \<open>=\<close> or \<open>.\<close>, after the second byte when the fourth is,
  and goes on with the next group after three bytes otherwise.
\<close>

theorem C9_b64_loop_groups:
  "(c \<noteq> CHR 0x00 \<and> schar c \<le> 0x20 \<and> rest \<noteq> [] \<and> hd rest \<noteq> CHR 0x00
      \<longrightarrow> b64_loop r (c # rest) out = b64_loop r rest out)
   \<and> (0x20 < schar c0 \<and> c1 \<noteq> CHR 0x00 \<and> 0 \<le> schar c1 \<and> length out + 2 < r \<longrightarrow>
        ((rest = [] \<or> hd rest = CHR 0x00 \<or> hd rest = CHR ''='' \<or> hd rest = CHR ''.'')
           \<longrightarrow> b64_loop r (c0 # c1 # rest) out = Inr (out @ [byte1 c0 c1]))
      \<and> (c2 \<noteq> CHR 0x00 \<and> 0 \<le> schar c2 \<and> c2 \<noteq> CHR ''='' \<and> c2 \<noteq> CHR ''.'' \<longrightarrow>
           ((rest = [] \<or> hd rest = CHR 0x00 \<or> hd rest = CHR ''='' \<or> hd rest = CHR ''.'')
              \<longrightarrow> b64_loop r (c0 # c1 # c2 # rest) out = Inr (out @ [byte1 c0 c1, byte2 c1 c2]))
         \<and> (c3 \<noteq> CHR 0x00 \<and> 0 \<le> schar c3 \<and> c3 \<noteq> CHR ''='' \<and> c3 \<noteq> CHR ''.''
              \<longrightarrow> b64_loop r (c0 # c1 # c2 # c3 # rest) out =
                   b64_loop r rest (out @ [byte1 c0 c1, byte2 c1 c2, byte3 c2 c3]))))"
proof (intro conjI impI; (elim conjE)?)
  assume "c \<noteq> CHR 0x00" "schar c \<le> 0x20" "rest \<noteq> []" "hd rest \<noteq> CHR 0x00"
  then show "b64_loop r (c # rest) out = b64_loop r rest out"
    by (rule b64_loop_skip)
next
  assume "0x20 < schar c0" "c1 \<noteq> CHR 0x00" "0 \<le> schar c1" "length out + 2 < r"
    "rest = [] \<or> hd rest = CHR 0x00 \<or> hd rest = CHR ''='' \<or> hd rest = CHR ''.''"
  then show "b64_loop r (c0 # c1 # rest) out = Inr (out @ [byte1 c0 c1])"
    by (intro b64_loop_stop2) auto
next
  assume "0x20 < schar c0" "c1 \<noteq> CHR 0x00" "0 \<le> schar c1" "length out + 2 < r"
    "c2 \<noteq> CHR 0x00" "0 \<le> schar c2" "c2 \<noteq> CHR ''=''" "c2 \<noteq> CHR ''.''"
    "rest = [] \<or> hd rest = CHR 0x00 \<or> hd rest = CHR ''='' \<or> hd rest = CHR ''.''"
  then show "b64_loop r (c0 # c1 # c2 # rest) out = Inr (out @ [byte1 c0 c1, byte2 c1 c2])"
    by (intro b64_loop_stop3) auto
next
  assume "0x20 < schar c0" "c1 \<noteq> CHR 0x00" "0 \<le> schar c1" "length out + 2 < r"
    "c2 \<noteq> CHR 0x00" "0 \<le> schar c2" "c2 \<noteq> CHR ''=''" "c2 \<noteq> CHR ''.''"
    "c3 \<noteq> CHR 0x00" "0 \<le> schar c3" "c3 \<noteq> CHR ''=''" "c3 \<noteq> CHR ''.''"
  then show "b64_loop r (c0 # c1 # c2 # c3 # rest) out =
             b64_loop r rest (out @ [byte1 c0 c1, byte2 c1 c2, byte3 c2 c3])"
    by (intro b64_loop_group) auto
qed

theorem C9_b64_loop_groups_witness:
  "b64_loop 7 ('' '' @ ''QUJD'') [] = b64_loop 7 ''QUJD'' []
   \<and> b64_loop 7 ''QQ=='' [] = Inr [byte1 CHR ''Q'' CHR ''Q'']
   \<and> b64_loop 7 ''QUI='' [] = Inr [byte1 CHR ''Q'' CHR ''U'', byte2 CHR ''U'' CHR ''I'']
   \<and> b64_loop 7 ''QUJD'' [] =
       b64_loop 7 [] [byte1 CHR ''Q'' CHR ''U'', byte2 CHR ''U'' CHR ''J'', byte3 CHR ''J'' CHR ''D'']"
  using C9_b64_loop_groups [of "CHR '' ''" "''QUJD''" 7 "[]" "CHR ''Q''" "CHR ''U''" "CHR ''J''" "CHR ''D''"]
    C9_b64_loop_groups [of "CHR '' ''" "''==''" 7 "[]" "CHR ''Q''" "CHR ''Q''" "CHR ''J''" "CHR ''D''"]
    C9_b64_loop_groups [of "CHR '' ''" "''=''" 7 "[]" "CHR ''Q''" "CHR ''U''" "CHR ''I''" "CHR ''D''"]
    C9_b64_loop_groups [of "CHR '' ''" "[]" 7 "[]" "CHR ''Q''" "CHR ''U''" "CHR ''J''" "CHR ''D''"]
  by (simp add: schar_def)

text \<open>
  C9 as stated fails. A space inside a group is not skipped: it is decoded as the sextet 0,
  so \<open>QU JD\<close> does not decode as \<open>QUJD\<close> does. A \<open>.\<close> that starts a group does not stop
  decoding: it is decoded as the sextet 62.
\<close>

theorem C9_counterexample:
  "b64Decode (Some ''QU JD'') 5 True True \<noteq>
     b64Decode (Some (filter (\<lambda>c. 0x20 < schar c) ''QU JD'')) 5 True True
   \<and> b64Decode (Some ''QU JD'') 5 True True =
       Inr (7, Some [Some CHR ''A'', Some CHR ''@'', Some CHR 0x09, None, None, None, Some CHR 0x00])
   \<and> b64Decode (Some ''QUJD'') 5 True True =
       Inr (7, Some [Some CHR ''A'', Some CHR ''B'', Some CHR ''C'', None, None, None, Some CHR 0x00])
   \<and> b64Decode (Some ''.QUJ'') 4 True True =
       Inr (7, Some [Some CHR 0xF9, Some CHR 0x05, Some CHR 0x09, None, None, None, Some CHR 0x00])"
  by code_simp

end
